theory Spec2Isabelle
  imports Main
begin

section \<open>Paths: the functions of Go's path/filepath and strings that the analyzer calls\<close>

text \<open>
  The analyzer is written against \<^verbatim>\<open>path/filepath\<close> on a Unix system: the separator is
  \<^verbatim>\<open>/\<close>, there is no volume name, and two path elements are the same when they are the
  same string. The definitions below follow the documented behaviour of the library:
  \<^verbatim>\<open>Clean\<close> drops empty and \<^verbatim>\<open>.\<close> elements, cancels an inner \<^verbatim>\<open>..\<close> against the element
  before it, drops a \<^verbatim>\<open>..\<close> that would climb above the root, and turns the empty result
  into \<^verbatim>\<open>.\<close>.
\<close>

definition IsAbs :: "string \<Rightarrow> bool" where
  "IsAbs p = (case p of [] \<Rightarrow> False | c # _ \<Rightarrow> c = CHR ''/'')"

text \<open>\<^verbatim>\<open>strings.Split(p, "/")\<close>: the elements between separators, at least one.\<close>

fun split_path :: "string \<Rightarrow> string list" where
  "split_path [] = [[]]"
| "split_path (c # cs) =
     (if c = CHR ''/'' then [] # split_path cs
      else (case split_path cs of [] \<Rightarrow> [[c]] | x # xs \<Rightarrow> (c # x) # xs))"

text \<open>\<^verbatim>\<open>strings.Join(elems, "/")\<close>.\<close>

fun join_path :: "string list \<Rightarrow> string" where
  "join_path [] = []"
| "join_path [x] = x"
| "join_path (x # y # ys) = x @ CHR ''/'' # join_path (y # ys)"

text \<open>
  One element read by \<^verbatim>\<open>Clean\<close>. The output written so far is kept as a stack of
  elements, the last one written first. An empty element and \<^verbatim>\<open>.\<close> write nothing; \<^verbatim>\<open>..\<close>
  removes the last element written when there is one that is not itself \<^verbatim>\<open>..\<close>, is
  appended when the path is not rooted, and is dropped at the root; any other element is
  appended.
\<close>

definition clean_step :: "bool \<Rightarrow> string list \<Rightarrow> string \<Rightarrow> string list" where
  "clean_step rooted st c =
     (if c = [] \<or> c = ''.'' then st
      else if c = ''..'' then
        (case st of
           [] \<Rightarrow> if rooted then [] else [c]
         | t # ts \<Rightarrow> if t = ''..'' then (if rooted then st else c # st) else ts)
      else c # st)"

definition clean_elems :: "bool \<Rightarrow> string list \<Rightarrow> string list" where
  "clean_elems rooted cs = rev (foldl (clean_step rooted) [] cs)"

definition render :: "bool \<Rightarrow> string list \<Rightarrow> string" where
  "render rooted st =
     (if rooted then CHR ''/'' # join_path st
      else if st = [] then ''.'' else join_path st)"

definition Clean :: "string \<Rightarrow> string" where
  "Clean p = render (IsAbs p) (clean_elems (IsAbs p) (split_path p))"

text \<open>
  \<^verbatim>\<open>filepath.Join(a, b)\<close>: empty arguments are ignored, the rest is joined with the
  separator and cleaned; the result is empty when both are empty.
\<close>

definition Join :: "string \<Rightarrow> string \<Rightarrow> string" where
  "Join a b =
     (if a \<noteq> [] then Clean (a @ CHR ''/'' # b)
      else if b \<noteq> [] then Clean b else [])"

text \<open>\<^verbatim>\<open>strings.HasPrefix\<close>, \<^verbatim>\<open>strings.HasSuffix\<close> and \<^verbatim>\<open>strings.TrimPrefix\<close>.\<close>

definition HasPrefix :: "string \<Rightarrow> string \<Rightarrow> bool" where
  "HasPrefix s p = (take (length p) s = p)"

definition HasSuffix :: "string \<Rightarrow> string \<Rightarrow> bool" where
  "HasSuffix s p = (length p \<le> length s \<and> drop (length s - length p) s = p)"

definition TrimPrefix :: "string \<Rightarrow> string \<Rightarrow> string" where
  "TrimPrefix s p = (if HasPrefix s p then drop (length p) s else s)"


section \<open>Errors, the operating system and the declaration parser\<close>

text \<open>
  A Go error is a value. \<open>OsError\<close> is an error returned by the operating system or by
  a library (its text is opaque), \<open>Errorf\<close> is \<^verbatim>\<open>fmt.Errorf\<close> with a format and
  its string arguments, and \<open>Wrapf\<close> is \<^verbatim>\<open>fmt.Errorf\<close> whose format ends in
  \<^verbatim>\<open>%w\<close>: it wraps the cause given last.
\<close>

datatype err =
    OsError string
  | Errorf string "string list"
  | Wrapf string "string list" err

text \<open>
  \<^verbatim>\<open>os.Stat\<close> is only ever tested with \<^verbatim>\<open>os.IsNotExist\<close>: the three outcomes are no
  error, an error for which \<^verbatim>\<open>os.IsNotExist\<close> holds, and any other error.
\<close>

datatype stat_result = Exists | NotExist | StatError

record dir_entry =
  Name :: string
  IsDir :: bool

text \<open>
  The environment of one run: the working directory (\<^verbatim>\<open>os.Getwd\<close>), the file system
  as seen through \<^verbatim>\<open>os.Stat\<close> and \<^verbatim>\<open>os.ReadDir\<close>, and the outcome of
  \<^verbatim>\<open>extractModuleSources\<close> on each file: that function parses the file with the HCL
  library and returns the literal \<^verbatim>\<open>source\<close> strings of its module blocks in the
  order of the blocks, or an error when the file does not parse. The analysis only reads
  the environment.
\<close>

record env =
  Getwd :: "err + string"
  Stat :: "string \<Rightarrow> stat_result"
  ReadDir :: "string \<Rightarrow> err + dir_entry list"
  extractModuleSources :: "string \<Rightarrow> err + string list"

text \<open>\<^verbatim>\<open>filepath.Abs\<close>: an absolute path is cleaned, another one is joined to the working directory.\<close>

definition Abs :: "env \<Rightarrow> string \<Rightarrow> err + string" where
  "Abs env p =
     (if IsAbs p then Inr (Clean p)
      else (case Getwd env of Inl e \<Rightarrow> Inl e | Inr wd \<Rightarrow> Inr (Join wd p)))"

text \<open>
  \<^verbatim>\<open>filepath.Rel\<close>. The library walks both cleaned paths element by element: a path is
  read as its elements between separators, a separator at the very end closing the last
  element.
\<close>

definition rel_elems :: "string \<Rightarrow> string list" where
  "rel_elems s = (let xs = split_path s in if last xs = [] then butlast xs else xs)"

fun strip_common :: "string list \<Rightarrow> string list \<Rightarrow> string list \<times> string list" where
  "strip_common (b # bs) (t # ts) =
     (if b = t then strip_common bs ts else (b # bs, t # ts))"
| "strip_common bs ts = (bs, ts)"

definition Rel :: "string \<Rightarrow> string \<Rightarrow> err + string" where
  "Rel basepath targpath =
     (let base = Clean basepath; targ = Clean targpath in
      if targ = base then Inr ''.''
      else
        let base = (if base = ''.'' then [] else base) in
        if IsAbs base \<noteq> IsAbs targ
        then Inl (Errorf ''Rel: can't make %s relative to %s'' [targpath, basepath])
        else (case strip_common (rel_elems base) (rel_elems targ) of
          (bs, ts) \<Rightarrow>
            if bs \<noteq> [] \<and> ts \<noteq> [] \<and> hd bs = ''..''
            then Inl (Errorf ''Rel: can't make %s relative to %s'' [targpath, basepath])
            else if bs \<noteq> []
            then Inr (''..'' @ concat (replicate (length bs - 1) ''/..'') @
                      (if join_path ts \<noteq> [] then CHR ''/'' # join_path ts else []))
            else Inr (join_path ts)))"

section \<open>The declaration extractor (package terraform)\<close>

definition resolveModulePath :: "string \<Rightarrow> string \<Rightarrow> string" where
  "resolveModulePath moduleDir source = Clean (Join moduleDir source)"

text \<open>The loop of \<^verbatim>\<open>findTerraformFiles\<close> over the directory entries; \<open>tfFiles\<close> is the slice appended to.\<close>

fun findTerraformFiles_loop :: "string \<Rightarrow> dir_entry list \<Rightarrow> string list \<Rightarrow> string list" where
  "findTerraformFiles_loop dir [] tfFiles = tfFiles"
| "findTerraformFiles_loop dir (entry # entries) tfFiles =
     (if IsDir entry then findTerraformFiles_loop dir entries tfFiles
      else if HasSuffix (Name entry) ''.tf''
      then findTerraformFiles_loop dir entries (tfFiles @ [Join dir (Name entry)])
      else findTerraformFiles_loop dir entries tfFiles)"

definition findTerraformFiles :: "env \<Rightarrow> string \<Rightarrow> err + string list" where
  "findTerraformFiles env dir =
     (case ReadDir env dir of
        Inl e \<Rightarrow> Inl (Wrapf ''failed to read directory: %w'' [] e)
      | Inr entries \<Rightarrow> Inr (findTerraformFiles_loop dir entries []))"

text \<open>The inner loop of \<^verbatim>\<open>FindChildModules\<close>, over the sources of one file.\<close>

fun resolveSources :: "env \<Rightarrow> string \<Rightarrow> string list \<Rightarrow> string list \<Rightarrow> string list" where
  "resolveSources env moduleDir [] childModules = childModules"
| "resolveSources env moduleDir (source # modules) childModules =
     (if Stat env (Join moduleDir source) = NotExist
      then resolveSources env moduleDir modules childModules
      else if IsAbs source
      then resolveSources env moduleDir modules childModules
      else resolveSources env moduleDir modules
             (childModules @ [resolveModulePath moduleDir source]))"

text \<open>The outer loop of \<^verbatim>\<open>FindChildModules\<close>, over the declaration files.\<close>

fun FindChildModules_loop ::
  "env \<Rightarrow> string \<Rightarrow> string list \<Rightarrow> string list \<Rightarrow> err + string list" where
  "FindChildModules_loop env moduleDir [] childModules = Inr childModules"
| "FindChildModules_loop env moduleDir (tfFile # tfFiles) childModules =
     (case extractModuleSources env tfFile of
        Inl e \<Rightarrow> Inl (Wrapf ''failed to parse %s: %w'' [tfFile] e)
      | Inr modules \<Rightarrow>
          FindChildModules_loop env moduleDir tfFiles
            (resolveSources env moduleDir modules childModules))"

definition FindChildModules :: "env \<Rightarrow> string \<Rightarrow> err + string list" where
  "FindChildModules env moduleDir =
     (case findTerraformFiles env moduleDir of
        Inl e \<Rightarrow> Inl (Wrapf ''failed to find terraform files in %s: %w'' [moduleDir] e)
      | Inr tfFiles \<Rightarrow> FindChildModules_loop env moduleDir tfFiles [])"

section \<open>The analyzer (package analyzer)\<close>

text \<open>
  A record written to the logger: its level, its message and the values of its
  attributes.
\<close>

datatype level = LevelDebug | LevelWarn | LevelError

datatype attr = S string | B bool | E err | L "string list"

type_synonym log_record = "level \<times> string \<times> attr list"

text \<open>
  The calls \<^verbatim>\<open>IsModuleUpdated\<close> makes to the file system and to the declaration
  extractor. They are recorded in the state so that a theorem can say that a call made
  none.
\<close>

datatype call = CallStat string | CallReadDir string | CallFindChildModules string

text \<open>
  The \<^verbatim>\<open>Analyzer\<close> struct. \<open>logger\<close> holds the records written to the logger so far;
  \<open>calls\<close> is not a field of the struct: it lists the calls of type \<^typ>\<open>call\<close> made so
  far.
\<close>

record analyzer =
  changedFiles :: "string set"
  analysisCache :: "string \<rightharpoonup> bool"
  logger :: "log_record list"
  calls :: "call list"

definition log :: "analyzer \<Rightarrow> level \<Rightarrow> string \<Rightarrow> attr list \<Rightarrow> analyzer" where
  "log a lv msg attrs = a\<lparr>logger := logger a @ [(lv, msg, attrs)]\<rparr>"

definition called :: "analyzer \<Rightarrow> call \<Rightarrow> analyzer" where
  "called a c = a\<lparr>calls := calls a @ [c]\<rparr>"

text \<open>
  \<^verbatim>\<open>NewAnalyzer\<close> ranges over the keys of the map of changed files; the list is the
  order in which the range visits them. The record it writes to the logger before it
  returns an error is left out: the analyzer is not built on that path.
\<close>

fun NewAnalyzer_loop :: "env \<Rightarrow> string list \<Rightarrow> string set \<Rightarrow> err + string set" where
  "NewAnalyzer_loop env [] absChangedFiles = Inr absChangedFiles"
| "NewAnalyzer_loop env (path # paths) absChangedFiles =
     (case Abs env path of
        Inl e \<Rightarrow> Inl e
      | Inr absPath \<Rightarrow> NewAnalyzer_loop env paths (insert absPath absChangedFiles))"

definition NewAnalyzer :: "env \<Rightarrow> string list \<Rightarrow> err + analyzer" where
  "NewAnalyzer env changed =
     (case NewAnalyzer_loop env changed {} of
        Inl e \<Rightarrow> Inl e
      | Inr absChangedFiles \<Rightarrow>
          Inr \<lparr>changedFiles = absChangedFiles, analysisCache = Map.empty,
               logger = [], calls = []\<rparr>)"

definition getAnalysisCache :: "env \<Rightarrow> analyzer \<Rightarrow> string \<Rightarrow> err + bool option" where
  "getAnalysisCache env a moduleDir =
     (case (if \<not> IsAbs moduleDir then Abs env moduleDir else Inr moduleDir) of
        Inl e \<Rightarrow> Inl e
      | Inr moduleDir' \<Rightarrow> Inr (analysisCache a (Clean moduleDir')))"

definition setAnalysisCache :: "env \<Rightarrow> analyzer \<Rightarrow> string \<Rightarrow> bool \<Rightarrow> err + analyzer" where
  "setAnalysisCache env a moduleDir updated =
     (case (if \<not> IsAbs moduleDir then Abs env moduleDir else Inr moduleDir) of
        Inl e \<Rightarrow> Inl e
      | Inr moduleDir' \<Rightarrow>
          Inr (a\<lparr>analysisCache := (analysisCache a)(Clean moduleDir' \<mapsto> updated)\<rparr>))"

text \<open>
  The end of every verdict path of \<^verbatim>\<open>IsModuleUpdated\<close>: store the verdict, return the
  error of the store if there is one, the verdict otherwise.
\<close>

definition cacheAndReturn ::
  "env \<Rightarrow> analyzer \<Rightarrow> string \<Rightarrow> bool \<Rightarrow> (err + bool) \<times> analyzer" where
  "cacheAndReturn env a moduleDir updated =
     (case setAnalysisCache env a moduleDir updated of
        Inl e \<Rightarrow> (Inl e, a)
      | Inr a' \<Rightarrow> (Inr updated, a'))"

text \<open>The loop of \<^verbatim>\<open>hasDirectFileChanges\<close> over the entries of the directory.\<close>

fun hasDirectFileChanges_loop ::
  "env \<Rightarrow> analyzer \<Rightarrow> string \<Rightarrow> dir_entry list \<Rightarrow> (err + bool) \<times> analyzer" where
  "hasDirectFileChanges_loop env a moduleDir [] = (Inr False, a)"
| "hasDirectFileChanges_loop env a moduleDir (entry # entries) =
     (if IsDir entry then hasDirectFileChanges_loop env a moduleDir entries
      else
        let filePath = Clean (Join moduleDir (Name entry)) in
        (case Abs env filePath of
           Inl e \<Rightarrow> (Inl (Wrapf ''failed to get absolute path for %s: %w'' [filePath] e), a)
         | Inr absFilePath \<Rightarrow>
             if absFilePath \<in> changedFiles a
             then (Inr True,
                   log a LevelDebug ''Found changed file in module root''
                     [S absFilePath, S moduleDir])
             else hasDirectFileChanges_loop env a moduleDir entries))"

definition hasDirectFileChanges ::
  "env \<Rightarrow> analyzer \<Rightarrow> string \<Rightarrow> (err + bool) \<times> analyzer" where
  "hasDirectFileChanges env a moduleDir0 =
     (let moduleDir = Clean moduleDir0; a1 = called a (CallReadDir moduleDir) in
      case ReadDir env moduleDir of
        Inl e \<Rightarrow> (Inl (Wrapf ''failed to read directory %s: %w'' [moduleDir] e), a1)
      | Inr entries \<Rightarrow> hasDirectFileChanges_loop env a1 moduleDir entries)"

text \<open>
  The loop of \<^verbatim>\<open>IsModuleUpdated\<close> over the child modules. \<open>rec\<close> is the recursive call
  \<^verbatim>\<open>a.IsModuleUpdated(childPath)\<close>; it returns \<open>None\<close> when it does not return.
\<close>

fun childLoop ::
  "(analyzer \<Rightarrow> string \<Rightarrow> ((err + bool) \<times> analyzer) option) \<Rightarrow> env \<Rightarrow> analyzer \<Rightarrow>
   string \<Rightarrow> string list \<Rightarrow> ((err + bool) \<times> analyzer) option" where
  "childLoop rec env a moduleDir [] =
     Some (cacheAndReturn env (log a LevelDebug ''Module is not updated'' [S moduleDir])
             moduleDir False)"
| "childLoop rec env a moduleDir (childPath # childModules) =
     (case rec a childPath of
        None \<Rightarrow> None
      | Some (Inl e, a') \<Rightarrow>
          Some (Inl (Wrapf ''failed to analyze child module %s: %w'' [childPath] e), a')
      | Some (Inr updated, a') \<Rightarrow>
          if updated
          then Some (cacheAndReturn env
                       (log a' LevelDebug ''Child module is updated'' [S moduleDir, S childPath])
                       moduleDir True)
          else childLoop rec env a' moduleDir childModules)"

text \<open>
  \<^verbatim>\<open>IsModuleUpdated\<close>. The recursion of the source has no bound, so the model takes the
  depth of recursion it may use: \<open>IsModuleUpdated n\<close> is \<open>None\<close> when the call needs
  more than \<open>n\<close> nested activations. A call that returns \<open>None\<close> for every \<open>n\<close> is
  a call that does not return.
\<close>

primrec IsModuleUpdated ::
  "nat \<Rightarrow> env \<Rightarrow> analyzer \<Rightarrow> string \<Rightarrow> ((err + bool) \<times> analyzer) option" where
  "IsModuleUpdated 0 env a moduleDir0 = None"
| "IsModuleUpdated (Suc n) env a moduleDir0 =
     (let moduleDir = Clean moduleDir0 in
      case getAnalysisCache env a moduleDir of
        Inl e \<Rightarrow> Some (Inl e, a)
      | Inr (Some updated) \<Rightarrow>
          Some (Inr updated, log a LevelDebug ''Cache hit'' [S moduleDir, B updated])
      | Inr None \<Rightarrow>
          let a1 = called (log a LevelDebug ''Analyzing module'' [S moduleDir])
                     (CallStat moduleDir) in
          if Stat env moduleDir = NotExist
          then Some (cacheAndReturn env
                       (log a1 LevelWarn ''Module directory does not exist'' [S moduleDir])
                       moduleDir False)
          else (case hasDirectFileChanges env a1 moduleDir of
            (Inl e, a2) \<Rightarrow>
              Some (Inl (Wrapf ''failed to check direct changes in %s: %w'' [moduleDir] e), a2)
          | (Inr isDirectlyUpdated, a2) \<Rightarrow>
              if isDirectlyUpdated
              then Some (cacheAndReturn env
                           (log a2 LevelDebug ''Module has direct file changes'' [S moduleDir])
                           moduleDir True)
              else
                let a3 = called (log a2 LevelDebug ''Checking child modules'' [S moduleDir])
                           (CallFindChildModules moduleDir) in
                (case FindChildModules env moduleDir of
                   Inl e \<Rightarrow>
                     Some (cacheAndReturn env
                             (log a3 LevelWarn ''Failed to find child modules''
                                [S moduleDir, E e])
                             moduleDir False)
                 | Inr childModules \<Rightarrow>
                     childLoop (IsModuleUpdated n env) env
                       (log a3 LevelDebug ''Found child modules'' [S moduleDir, L childModules])
                       moduleDir childModules)))"

definition ConvertToRelativePath :: "string \<Rightarrow> string \<Rightarrow> err + string" where
  "ConvertToRelativePath basePath0 absolutePath0 =
     (if \<not> IsAbs basePath0 then Inl (Errorf ''base path %s is not absolute'' [basePath0])
      else
        let basePath = Clean basePath0 in
        if \<not> IsAbs absolutePath0 then Inl (Errorf ''path %s is not absolute'' [absolutePath0])
        else
          let absolutePath = Clean absolutePath0 in
          if \<not> HasPrefix absolutePath basePath
          then (case Rel basePath absolutePath of
                  Inl e \<Rightarrow> Inl (Wrapf ''failed to compute relative path: %w'' [] e)
                | Inr relPath \<Rightarrow> Inr relPath)
          else Inr (TrimPrefix (TrimPrefix absolutePath basePath) ''/''))"

text \<open>
  The loop of \<^verbatim>\<open>AnalyzeRootModules\<close> over the root modules, on one analyzer. The
  function returns the list or an error, not the analyzer, so the records it writes to the
  logger before it returns an error are left out.
\<close>

fun AnalyzeRootModules_loop ::
  "nat \<Rightarrow> env \<Rightarrow> analyzer \<Rightarrow> string \<Rightarrow> string list \<Rightarrow> string list \<Rightarrow>
   (err + string list) option" where
  "AnalyzeRootModules_loop n env a basePath [] updatedModules = Some (Inr updatedModules)"
| "AnalyzeRootModules_loop n env a basePath (moduleDir # rootModuleDirs) updatedModules =
     (case IsModuleUpdated n env a moduleDir of
        None \<Rightarrow> None
      | Some (Inl e, a') \<Rightarrow> Some (Inl (Wrapf ''failed to analyze module %s: %w'' [moduleDir] e))
      | Some (Inr updated, a') \<Rightarrow>
          if updated
          then (case Abs env basePath of
                  Inl e \<Rightarrow> Some (Inl e)
                | Inr absoluteBasePath \<Rightarrow>
                   (case Abs env moduleDir of
                      Inl e \<Rightarrow> Some (Inl e)
                    | Inr absoluteModuleDir \<Rightarrow>
                       (case ConvertToRelativePath absoluteBasePath absoluteModuleDir of
                          Inl e \<Rightarrow> Some (Inl e)
                        | Inr relPath \<Rightarrow>
                            AnalyzeRootModules_loop n env a' basePath rootModuleDirs
                              (updatedModules @ [relPath]))))
          else AnalyzeRootModules_loop n env a' basePath rootModuleDirs updatedModules)"

text \<open>
  \<^verbatim>\<open>AnalyzeRootModules\<close>; \<open>n\<close> bounds the depth of recursion of each call of
  \<^verbatim>\<open>IsModuleUpdated\<close>.
\<close>

definition AnalyzeRootModules ::
  "nat \<Rightarrow> env \<Rightarrow> string list \<Rightarrow> string list \<Rightarrow> string \<Rightarrow> (err + string list) option" where
  "AnalyzeRootModules n env rootModuleDirs changed basePath =
     (case NewAnalyzer env changed of
        Inl e \<Rightarrow> Some (Inl e)
      | Inr a \<Rightarrow> AnalyzeRootModules_loop n env a basePath rootModuleDirs [])"

section \<open>Notions used in the statements\<close>

subsection \<open>Cleaned paths\<close>

text \<open>An element without a separator, and the shape of the stack of \<open>clean_step\<close>.\<close>

definition nosep :: "string \<Rightarrow> bool" where
  "nosep c = (CHR ''/'' \<notin> set c)"

fun okst :: "bool \<Rightarrow> string list \<Rightarrow> bool" where
  "okst r [] = True"
| "okst r (t # ts) =
     (t \<noteq> [] \<and> t \<noteq> ''.'' \<and> nosep t \<and>
      (t = ''..'' \<longrightarrow> \<not> r \<and> (case ts of [] \<Rightarrow> True | u # _ \<Rightarrow> u = ''..'')) \<and> okst r ts)"

subsection \<open>What the declaration extractor is to return\<close>

text \<open>
  In the words of the specification: the declaration files of a directory are its
  entries that are not directories and whose name ends in \<^verbatim>\<open>.tf\<close>; the declared
  sources are the source strings of these files in the order of declaration; a source is
  kept when it is not absolute and the path it names under the module directory is not
  reported missing; a kept source is joined to the module directory and cleaned.
\<close>

definition declarationFiles :: "string \<Rightarrow> dir_entry list \<Rightarrow> string list" where
  "declarationFiles dir entries =
     map (\<lambda>e. Join dir (Name e))
       (filter (\<lambda>e. \<not> IsDir e \<and> HasSuffix (Name e) ''.tf'') entries)"

definition parses :: "env \<Rightarrow> string \<Rightarrow> bool" where
  "parses env f = (case extractModuleSources env f of Inl e \<Rightarrow> False | Inr ss \<Rightarrow> True)"

definition declaredSources :: "env \<Rightarrow> string list \<Rightarrow> string list" where
  "declaredSources env files =
     concat (map (\<lambda>f. case extractModuleSources env f of Inl e \<Rightarrow> [] | Inr ss \<Rightarrow> ss) files)"

definition localSource :: "env \<Rightarrow> string \<Rightarrow> string \<Rightarrow> bool" where
  "localSource env moduleDir source =
     (\<not> IsAbs source \<and> Stat env (Join moduleDir source) \<noteq> NotExist)"

definition childModules_spec :: "env \<Rightarrow> string \<Rightarrow> dir_entry list \<Rightarrow> string list" where
  "childModules_spec env moduleDir entries =
     map (\<lambda>source. Clean (Join moduleDir source))
       (filter (localSource env moduleDir)
          (declaredSources env (declarationFiles moduleDir entries)))"

subsection \<open>An example tree\<close>

text \<open>
  A root module \<^verbatim>\<open>/r/env/dev\<close> that declares the modules \<^verbatim>\<open>/r/mod/a\<close> (twice) and
  \<^verbatim>\<open>/r/mod/b\<close> by relative sources, one remote source and one absolute source; a second
  root module \<^verbatim>\<open>/r/env/prod\<close> that declares \<^verbatim>\<open>/r/mod/b\<close> and \<^verbatim>\<open>/r/mod/a\<close>; a module
  \<^verbatim>\<open>/r/mod/bad\<close> whose declaration file does not parse; a directory \<^verbatim>\<open>/r/mod/locked\<close>
  that exists and cannot be read, and a root module \<^verbatim>\<open>/r/env/test\<close> that declares it;
  two modules \<^verbatim>\<open>/r/cyc/a\<close> and \<^verbatim>\<open>/r/cyc/b\<close> that declare each other, where
  \<^verbatim>\<open>/r/cyc/a\<close> declares \<^verbatim>\<open>/r/mod/b\<close> first; and two modules
  \<^verbatim>\<open>/r/mix/a\<close> and \<^verbatim>\<open>/r/mix/b\<close> that declare each other, where \<^verbatim>\<open>/r/mix/a\<close> declares
  \<^verbatim>\<open>/r/mod/a\<close> first.
\<close>

definition ex_dirs :: "string list" where
  "ex_dirs = [''/r/env/dev'', ''/r/env/prod'', ''/r/env/test'', ''/r/mod/a'', ''/r/mod/b'',
              ''/r/mod/bad'', ''/r/mod/locked'', ''/r/cyc/a'', ''/r/cyc/b'',
              ''/r/mix/a'', ''/r/mix/b'']"

definition ex_sources :: "string \<Rightarrow> err + string list" where
  "ex_sources f =
     (if f = ''/r/env/dev/main.tf''
      then Inr [''../../mod/a'', ''git::https://example.com/x.git'', ''/r/mod/b'',
                ''../../mod/b'', ''../../mod/a'']
      else if f = ''/r/env/prod/main.tf'' then Inr [''../../mod/b'', ''../../mod/a'']
      else if f = ''/r/env/test/main.tf'' then Inr [''../../mod/locked'', ''../../mod/a'']
      else if f = ''/r/mod/bad/main.tf'' then Inl (OsError ''failed to parse HCL file'')
      else if f = ''/r/cyc/a/main.tf'' then Inr [''../../mod/b'', ''../b'']
      else if f = ''/r/cyc/b/main.tf'' then Inr [''../a'']
      else if f = ''/r/mix/a/main.tf'' then Inr [''../../mod/a'', ''../b'']
      else if f = ''/r/mix/b/main.tf'' then Inr [''../a'']
      else Inr [])"

definition env_ex :: env where
  "env_ex = \<lparr>Getwd = Inr ''/w'',
     Stat = (\<lambda>p. if p \<in> set ex_dirs then Exists else NotExist),
     ReadDir = (\<lambda>p. if p = ''/r/mod/locked'' then Inl (OsError ''permission denied'')
                  else if p = ''/r/env/dev''
                  then Inr [\<lparr>Name = ''.terraform'', IsDir = True\<rparr>,
                            \<lparr>Name = ''README.md'', IsDir = False\<rparr>,
                            \<lparr>Name = ''main.tf'', IsDir = False\<rparr>]
                  else if p \<in> set ex_dirs then Inr [\<lparr>Name = ''main.tf'', IsDir = False\<rparr>]
                  else Inl (OsError ''no such file or directory'')),
     extractModuleSources = ex_sources\<rparr>"

text \<open>The analyzer built for the one changed file \<^verbatim>\<open>/r/mod/a/main.tf\<close>.\<close>

definition analyzer_ex :: analyzer where
  "analyzer_ex = \<lparr>changedFiles = {''/r/mod/a/main.tf''}, analysisCache = Map.empty,
                   logger = [], calls = []\<rparr>"

subsection \<open>The key of the cache\<close>

text \<open>
  The key under which \<^verbatim>\<open>getAnalysisCache\<close> and \<^verbatim>\<open>setAnalysisCache\<close> look a directory
  up: its absolute path, cleaned. There is none when the path is relative and the working
  directory cannot be determined.
\<close>

definition cacheKey :: "env \<Rightarrow> string \<Rightarrow> err + string" where
  "cacheKey env moduleDir =
     (case (if \<not> IsAbs moduleDir then Abs env moduleDir else Inr moduleDir) of
        Inl e \<Rightarrow> Inl e
      | Inr moduleDir' \<Rightarrow> Inr (Clean moduleDir'))"

text \<open>The path a recorded call was made on, and the calls made on a directory with key \<open>k\<close>.\<close>

fun call_path :: "call \<Rightarrow> string" where
  "call_path (CallStat p) = p"
| "call_path (CallReadDir p) = p"
| "call_path (CallFindChildModules p) = p"

definition touches :: "env \<Rightarrow> string \<Rightarrow> call \<Rightarrow> bool" where
  "touches env k c = (cacheKey env (call_path c) = Inr k)"

subsection \<open>Calls that return\<close>

text \<open>
  The state of the analyzer once an analysis has begun (after the cache miss), and once it
  turns to the child modules.
\<close>

definition begun :: "analyzer \<Rightarrow> string \<Rightarrow> analyzer" where
  "begun a M = called (log a LevelDebug ''Analyzing module'' [S M]) (CallStat M)"

definition descending :: "analyzer \<Rightarrow> string \<Rightarrow> analyzer" where
  "descending a2 M =
     called (log a2 LevelDebug ''Checking child modules'' [S M]) (CallFindChildModules M)"

text \<open>
  \<open>run env a m r a'\<close>: the call \<^verbatim>\<open>a.IsModuleUpdated(m)\<close> returns \<open>r\<close> and leaves the analyzer
  in state \<open>a'\<close>; \<open>loop env a M cs r a'\<close>: the loop over the children \<open>cs\<close> of \<open>M\<close>, started
  in state \<open>a\<close>, ends the call with \<open>r\<close> in state \<open>a'\<close>. The relation is derived from the
  function: it holds exactly when some depth of recursion is enough (lemmas
  \<open>IMU_run\<close> and \<open>run_IMU\<close>), and it gives the induction over the calls made.
\<close>

inductive run :: "env \<Rightarrow> analyzer \<Rightarrow> string \<Rightarrow> err + bool \<Rightarrow> analyzer \<Rightarrow> bool"
  and loop :: "env \<Rightarrow> analyzer \<Rightarrow> string \<Rightarrow> string list \<Rightarrow> err + bool \<Rightarrow> analyzer \<Rightarrow> bool"
  for env :: env where
  keyerr: "cacheKey env (Clean m) = Inl e \<Longrightarrow> run env a m (Inl e) a"
| hit: "cacheKey env (Clean m) = Inr k \<Longrightarrow> analysisCache a k = Some b \<Longrightarrow>
        run env a m (Inr b) (log a LevelDebug ''Cache hit'' [S (Clean m), B b])"
| notexist: "cacheKey env (Clean m) = Inr k \<Longrightarrow> analysisCache a k = None \<Longrightarrow>
        Stat env (Clean m) = NotExist \<Longrightarrow>
        run env a m (Inr False)
          ((log (begun a (Clean m)) LevelWarn ''Module directory does not exist'' [S (Clean m)])
             \<lparr>analysisCache := (analysisCache a)(k \<mapsto> False)\<rparr>)"
| direrr: "cacheKey env (Clean m) = Inr k \<Longrightarrow> analysisCache a k = None \<Longrightarrow>
        Stat env (Clean m) \<noteq> NotExist \<Longrightarrow>
        hasDirectFileChanges env (begun a (Clean m)) (Clean m) = (Inl e, a') \<Longrightarrow>
        run env a m (Inl (Wrapf ''failed to check direct changes in %s: %w'' [Clean m] e)) a'"
| direct: "cacheKey env (Clean m) = Inr k \<Longrightarrow> analysisCache a k = None \<Longrightarrow>
        Stat env (Clean m) \<noteq> NotExist \<Longrightarrow>
        hasDirectFileChanges env (begun a (Clean m)) (Clean m) = (Inr True, a2) \<Longrightarrow>
        run env a m (Inr True)
          ((log a2 LevelDebug ''Module has direct file changes'' [S (Clean m)])
             \<lparr>analysisCache := (analysisCache a2)(k \<mapsto> True)\<rparr>)"
| parseerr: "cacheKey env (Clean m) = Inr k \<Longrightarrow> analysisCache a k = None \<Longrightarrow>
        Stat env (Clean m) \<noteq> NotExist \<Longrightarrow>
        hasDirectFileChanges env (begun a (Clean m)) (Clean m) = (Inr False, a2) \<Longrightarrow>
        FindChildModules env (Clean m) = Inl e \<Longrightarrow>
        run env a m (Inr False)
          ((log (descending a2 (Clean m)) LevelWarn ''Failed to find child modules''
              [S (Clean m), E e])
             \<lparr>analysisCache := (analysisCache a2)(k \<mapsto> False)\<rparr>)"
| children: "cacheKey env (Clean m) = Inr k \<Longrightarrow> analysisCache a k = None \<Longrightarrow>
        Stat env (Clean m) \<noteq> NotExist \<Longrightarrow>
        hasDirectFileChanges env (begun a (Clean m)) (Clean m) = (Inr False, a2) \<Longrightarrow>
        FindChildModules env (Clean m) = Inr cs \<Longrightarrow>
        loop env
          (log (descending a2 (Clean m)) LevelDebug ''Found child modules'' [S (Clean m), L cs])
          (Clean m) cs r a' \<Longrightarrow>
        run env a m r a'"
| loop_done: "cacheAndReturn env (log a LevelDebug ''Module is not updated'' [S M]) M False
          = (r, a') \<Longrightarrow>
        loop env a M [] r a'"
| loop_err: "run env a c (Inl e) a1 \<Longrightarrow>
        loop env a M (c # cs) (Inl (Wrapf ''failed to analyze child module %s: %w'' [c] e)) a1"
| loop_true: "run env a c (Inr True) a1 \<Longrightarrow>
        cacheAndReturn env (log a1 LevelDebug ''Child module is updated'' [S M, S c]) M True
          = (r, a') \<Longrightarrow>
        loop env a M (c # cs) r a'"
| loop_false: "run env a c (Inr False) a1 \<Longrightarrow> loop env a1 M cs r a' \<Longrightarrow>
        loop env a M (c # cs) r a'"

subsection \<open>Canonical keys\<close>

text \<open>
  A cache whose keys are all absolute and cleaned, and an environment whose working
  directory, when it is known, is an absolute path (as \<^verbatim>\<open>os.Getwd\<close> documents).
\<close>

definition canonical :: "(string \<rightharpoonup> bool) \<Rightarrow> bool" where
  "canonical c = (\<forall>k b. c k = Some b \<longrightarrow> IsAbs k \<and> Clean k = k)"

definition wd_ok :: "env \<Rightarrow> bool" where
  "wd_ok env = (case Getwd env of Inl e \<Rightarrow> True | Inr d \<Rightarrow> IsAbs d)"

subsection \<open>Relative paths\<close>

text \<open>
  The operating system resolves a relative path against the working directory. An
  environment is coherent when its working directory is known and absolute and, for every
  cleaned relative path, \<^verbatim>\<open>os.Stat\<close>, \<^verbatim>\<open>os.ReadDir\<close> and the parser find under the path
  what they find under the path joined to the working directory; the error they return
  may differ, since its text names the path. A path is resolved when it is absolute or
  the environment is coherent.
\<close>

definition coherent :: "env \<Rightarrow> bool" where
  "coherent env =
     (\<exists>d. Getwd env = Inr d \<and> IsAbs d
        \<and> (\<forall>p. \<not> IsAbs p \<and> Clean p = p \<longrightarrow>
               Stat env p = Stat env (Join d p)
               \<and> rel_sum (\<lambda>e e'. True) (=) (ReadDir env p) (ReadDir env (Join d p))
               \<and> rel_sum (\<lambda>e e'. True) (=)
                     (extractModuleSources env p) (extractModuleSources env (Join d p))))"

definition resolved :: "env \<Rightarrow> string \<Rightarrow> bool" where
  "resolved env m = (IsAbs m \<or> coherent env)"


subsection \<open>A directory left alone\<close>

text \<open>
  From state \<open>a\<close> to state \<open>a'\<close> the cache entry of the key \<open>k\<close> has not changed and no
  call was made on a directory with that key.
\<close>

definition kept :: "env \<Rightarrow> string \<Rightarrow> analyzer \<Rightarrow> analyzer \<Rightarrow> bool" where
  "kept env k a a' =
     (analysisCache a' k = analysisCache a k
      \<and> filter (touches env k) (calls a') = filter (touches env k) (calls a))"

subsection \<open>The verdict without a cache\<close>

text \<open>
  The direct-change check depends on the analyzer only through its set of changed files.
\<close>

definition directChange :: "env \<Rightarrow> string set \<Rightarrow> string \<Rightarrow> err + bool" where
  "directChange env cf m =
     fst (hasDirectFileChanges env
            \<lparr>changedFiles = cf, analysisCache = Map.empty, logger = [], calls = []\<rparr> m)"

text \<open>
  What \<^verbatim>\<open>IsModuleUpdated\<close> computes when nothing is remembered: the same steps without a
  cache and without a state, again with a bound on the depth of recursion. It is the
  yardstick for the cache: an entry is right when it is the verdict computed here.
\<close>

fun verdictLoop :: "(string \<Rightarrow> (err + bool) option) \<Rightarrow> string list \<Rightarrow> (err + bool) option" where
  "verdictLoop rec [] = Some (Inr False)"
| "verdictLoop rec (childPath # childModules) =
     (case rec childPath of
        None \<Rightarrow> None
      | Some (Inl e) \<Rightarrow>
          Some (Inl (Wrapf ''failed to analyze child module %s: %w'' [childPath] e))
      | Some (Inr updated) \<Rightarrow>
          if updated then Some (Inr True) else verdictLoop rec childModules)"

primrec verdict :: "nat \<Rightarrow> env \<Rightarrow> string set \<Rightarrow> string \<Rightarrow> (err + bool) option" where
  "verdict 0 env cf moduleDir0 = None"
| "verdict (Suc n) env cf moduleDir0 =
     (let moduleDir = Clean moduleDir0 in
      case cacheKey env moduleDir of
        Inl e \<Rightarrow> Some (Inl e)
      | Inr k \<Rightarrow>
          if Stat env moduleDir = NotExist then Some (Inr False)
          else (case directChange env cf moduleDir of
            Inl e \<Rightarrow>
              Some (Inl (Wrapf ''failed to check direct changes in %s: %w'' [moduleDir] e))
          | Inr isDirectlyUpdated \<Rightarrow>
              if isDirectlyUpdated then Some (Inr True)
              else (case FindChildModules env moduleDir of
                 Inl e \<Rightarrow> Some (Inr False)
               | Inr childModules \<Rightarrow> verdictLoop (verdict n env cf) childModules)))"

text \<open>
  A cache is sound for a set of changed files when each of its keys is an absolute, cleaned
  path and each of its entries is the verdict of that path.
\<close>

definition sound :: "env \<Rightarrow> string set \<Rightarrow> (string \<rightharpoonup> bool) \<Rightarrow> bool" where
  "sound env cf c =
     (\<forall>k b. c k = Some b \<longrightarrow>
        IsAbs k \<and> Clean k = k \<and> (\<exists>n. verdict n env cf k = Some (Inr b)))"

text \<open>
  An engine whose cache was populated by earlier queries: \<open>populated env a0 a\<close> holds when
  \<open>a\<close> is reached from the engine \<open>a0\<close>, whose cache is empty, by calls of
  \<^verbatim>\<open>IsModuleUpdated\<close> on resolved paths that returned.
\<close>

inductive populated :: "env \<Rightarrow> analyzer \<Rightarrow> analyzer \<Rightarrow> bool" for env :: env and a0 :: analyzer where
  fresh: "analysisCache a0 = Map.empty \<Longrightarrow> populated env a0 a0"
| query: "populated env a0 a \<Longrightarrow> resolved env m \<Longrightarrow> IsModuleUpdated n env a m = Some (r, a') \<Longrightarrow>
          populated env a0 a'"

text \<open>The call \<^verbatim>\<open>a.IsModuleUpdated(m)\<close> returns \<open>r\<close>.\<close>

definition returns :: "env \<Rightarrow> analyzer \<Rightarrow> string \<Rightarrow> err + bool \<Rightarrow> bool" where
  "returns env a m r = (\<exists>n a'. IsModuleUpdated n env a m = Some (r, a'))"

subsection \<open>The graph of module references\<close>

text \<open>
  \<open>refs env\<close> holds the pairs (child, parent) of the reference graph: the parent is a
  cleaned path and the child is one of the paths \<^verbatim>\<open>FindChildModules\<close> returns for it.
  \<open>within d env m\<close>: no chain of references that starts at \<open>m\<close> has more than \<open>d\<close> modules.
\<close>

definition refs :: "env \<Rightarrow> (string \<times> string) set" where
  "refs env = {(c, p). Clean p = p \<and> (\<exists>cs. FindChildModules env p = Inr cs \<and> c \<in> set cs)}"

primrec within :: "nat \<Rightarrow> env \<Rightarrow> string \<Rightarrow> bool" where
  "within 0 env m = False"
| "within (Suc d) env m =
     (case FindChildModules env (Clean m) of
        Inl e \<Rightarrow> True
      | Inr cs \<Rightarrow> list_all (within d env) cs)"

text \<open>
  One module of a cycle, for the engine in state \<open>a\<close>: \<open>m\<close> is a resolved cleaned path, the
  directory is not missing, none of its files has changed, one of its children is in the
  set \<open>C\<close> of the modules of the cycle, and every child declared before that one is found
  unaffected.
\<close>

definition cycle_step :: "env \<Rightarrow> analyzer \<Rightarrow> string set \<Rightarrow> string \<Rightarrow> bool" where
  "cycle_step env a C m =
     (resolved env m \<and> Clean m = m \<and> Stat env m \<noteq> NotExist
      \<and> directChange env (changedFiles a) m = Inr False
      \<and> (\<exists>pre c post. FindChildModules env m = Inr (pre @ c # post) \<and> c \<in> C
            \<and> (\<forall>p\<in>set pre. returns env a p (Inr False))))"

text \<open>A tree without a cycle: \<^verbatim>\<open>/r/p\<close> declares \<^verbatim>\<open>/r/c\<close>, and nothing else can be read.\<close>

definition env_dag :: env where
  "env_dag = \<lparr>Getwd = Inr ''/w'',
     Stat = (\<lambda>p. Exists),
     ReadDir = (\<lambda>p. if p = ''/r/p'' then Inr [\<lparr>Name = ''main.tf'', IsDir = False\<rparr>]
                  else Inl (OsError ''not a directory'')),
     extractModuleSources = (\<lambda>f. if f = ''/r/p/main.tf'' then Inr [''../c''] else Inr [])\<rparr>"

subsection \<open>The batch of root modules\<close>

text \<open>
  The path of a root module relative to the base path, as \<^verbatim>\<open>AnalyzeRootModules\<close> computes
  it for a module found updated.
\<close>

definition relativeTo :: "env \<Rightarrow> string \<Rightarrow> string \<Rightarrow> err + string" where
  "relativeTo env basePath moduleDir =
     (case Abs env basePath of
        Inl e \<Rightarrow> Inl e
      | Inr absoluteBasePath \<Rightarrow>
         (case Abs env moduleDir of
            Inl e \<Rightarrow> Inl e
          | Inr absoluteModuleDir \<Rightarrow> ConvertToRelativePath absoluteBasePath absoluteModuleDir))"

text \<open>
  The results of \<^verbatim>\<open>IsModuleUpdated\<close> on the directories of a list, called in order on one
  engine, up to the first error; \<open>None\<close> when a call does not return within depth \<open>n\<close>.
\<close>

fun queries ::
  "nat \<Rightarrow> env \<Rightarrow> analyzer \<Rightarrow> string list \<Rightarrow> (string \<times> (err + bool)) list option" where
  "queries n env a [] = Some []"
| "queries n env a (d # ds) =
     (case IsModuleUpdated n env a d of
        None \<Rightarrow> None
      | Some (Inl e, a') \<Rightarrow> Some [(d, Inl e)]
      | Some (Inr b, a') \<Rightarrow> map_option ((#) (d, Inr b)) (queries n env a' ds))"

declare IsModuleUpdated.simps(2) [simp del]

section \<open>Properties of the path functions\<close>

text \<open>
  A cleaned path is a fixed point of \<open>Clean\<close>, and cleaning keeps a path absolute or
  relative. The proof goes through the shape of the element stack that \<open>clean_step\<close>
  maintains: no empty element, no \<open>.\<close>, no separator inside an element, and \<open>..\<close> only
  at the bottom of the stack of a path that is not rooted.
\<close>

lemma split_path_nonempty: "split_path p \<noteq> []"
  by (induction p) (auto split: list.splits)

lemma split_path_nosep: "c \<in> set (split_path p) \<Longrightarrow> nosep c"
  by (induction p arbitrary: c) (auto simp: nosep_def split: list.splits if_splits)

lemma split_path_single: "nosep x \<Longrightarrow> split_path x = [x]"
  by (induction x) (auto simp: nosep_def)

lemma split_path_app: "nosep x \<Longrightarrow> split_path (x @ CHR ''/'' # rest) = x # split_path rest"
  by (induction x) (auto simp: nosep_def)

lemma split_join: "st \<noteq> [] \<Longrightarrow> \<forall>c\<in>set st. nosep c \<Longrightarrow> split_path (join_path st) = st"
  by (induction st rule: join_path.induct) (auto simp: split_path_single split_path_app)

lemma nosep_dotdot: "nosep ''..''"
  by (simp add: nosep_def)

lemma okst_tl: "okst r (t # ts) \<Longrightarrow> okst r ts"
  by simp

lemma okst_push_dotdot:
  "okst r st \<Longrightarrow> \<not> r \<Longrightarrow> st = [] \<or> hd st = ''..'' \<Longrightarrow> okst r (''..'' # st)"
  by (cases st) (simp_all add: nosep_dotdot)

lemma okst_push:
  "okst r st \<Longrightarrow> nosep c \<Longrightarrow> c \<noteq> [] \<Longrightarrow> c \<noteq> ''.'' \<Longrightarrow> c \<noteq> ''..'' \<Longrightarrow> okst r (c # st)"
  by simp

lemma okst_step:
  assumes "okst r st" "nosep c"
  shows "okst r (clean_step r st c)"
proof (cases "c = [] \<or> c = ''.''")
  case True
  then show ?thesis using assms(1) by (auto simp: clean_step_def)
next
  case skip: False
  show ?thesis
  proof (cases "c = ''..''")
    case False
    then have "clean_step r st c = c # st" using skip by (simp add: clean_step_def)
    then show ?thesis using okst_push[OF assms] skip False by simp
  next
    case dd: True
    show ?thesis
    proof (cases st)
      case Nil
      then have "clean_step r st c = (if r then [] else [''..''])"
        using dd by (simp add: clean_step_def)
      then show ?thesis using okst_push_dotdot[of r "[]"] by (cases r) simp_all
    next
      case (Cons t ts)
      show ?thesis
      proof (cases "t = ''..''")
        case True
        then have "clean_step r st c = (if r then st else ''..'' # st)"
          using dd Cons by (simp add: clean_step_def)
        moreover have "\<not> r \<Longrightarrow> okst r (''..'' # st)"
          using okst_push_dotdot[of r st] assms(1) Cons True by simp
        ultimately show ?thesis using assms(1) by (cases r) simp_all
      next
        case False
        then have "clean_step r st c = ts" using dd Cons by (simp add: clean_step_def)
        then show ?thesis using assms(1) Cons okst_tl by simp
      qed
    qed
  qed
qed

lemma okst_foldl: "okst r st \<Longrightarrow> \<forall>c\<in>set cs. nosep c \<Longrightarrow> okst r (foldl (clean_step r) st cs)"
  by (induction cs arbitrary: st) (auto simp: okst_step)

lemma okst_suffix: "okst r (a @ b) \<Longrightarrow> okst r b"
  by (induction a) auto

lemma okst_nosep: "okst r st \<Longrightarrow> c \<in> set st \<Longrightarrow> nosep c \<and> c \<noteq> []"
  by (induction st) auto

lemma step_push: assumes "okst r (x # pre)" shows "clean_step r pre x = x # pre"
proof (cases "x = ''..''")
  case False
  then show ?thesis using assms by (simp add: clean_step_def)
next
  case True
  then have "\<not> r" "pre = [] \<or> hd pre = ''..''" using assms by (cases pre; simp)+
  then show ?thesis using True by (cases pre) (simp_all add: clean_step_def)
qed

lemma foldl_ok: "okst r (rev xs @ pre) \<Longrightarrow> foldl (clean_step r) pre xs = rev xs @ pre"
proof (induction xs arbitrary: pre)
  case Nil
  then show ?case by simp
next
  case (Cons x xs)
  from Cons.prems have ok: "okst r (rev xs @ (x # pre))" by simp
  then have "okst r (x # pre)" by (rule okst_suffix)
  then have "clean_step r pre x = x # pre" by (rule step_push)
  with Cons.IH[OF ok] show ?case by simp
qed

lemma clean_elems_ok: "okst r (rev (clean_elems r (split_path p)))"
proof -
  have "\<forall>c\<in>set (split_path p). nosep c" by (simp add: split_path_nosep)
  then have "okst r (foldl (clean_step r) [] (split_path p))" by (intro okst_foldl) simp_all
  then show ?thesis by (simp add: clean_elems_def)
qed

lemma clean_elems_fix: "okst r (rev st) \<Longrightarrow> clean_elems r st = st"
  unfolding clean_elems_def using foldl_ok[of r st "[]"] by simp

lemma clean_elems_skip: "clean_elems r ([] # xs) = clean_elems r xs"
  by (simp add: clean_elems_def clean_step_def)

lemma join_path_hd: "\<exists>rest. join_path ((c # cs) # xs) = c # rest"
  by (cases xs) auto

lemma okst_hd: assumes "okst r (rev (x # xs))" shows "\<exists>c cs. x = c # cs \<and> c \<noteq> CHR ''/''"
proof -
  have "x \<in> set (rev (x # xs))" by simp
  with assms have "nosep x \<and> x \<noteq> []" by (rule okst_nosep)
  then show ?thesis by (cases x) (auto simp: nosep_def)
qed

lemma join_path_ok_hd:
  assumes "okst r (rev st)" "st \<noteq> []"
  shows "\<exists>c rest. join_path st = c # rest \<and> c \<noteq> CHR ''/''"
proof -
  from assms(2) obtain x xs where st: "st = x # xs" by (cases st) auto
  from okst_hd[of r x xs] assms(1) st obtain c cs where x: "x = c # cs" "c \<noteq> CHR ''/''"
    by auto
  from join_path_hd[of c cs xs] obtain rest where "join_path ((c # cs) # xs) = c # rest" ..
  with st x show ?thesis by simp
qed

lemma IsAbs_render: assumes "okst r (rev st)" shows "IsAbs (render r st) = r"
proof (cases "st = []")
  case True
  then show ?thesis by (simp add: render_def IsAbs_def)
next
  case False
  from join_path_ok_hd[OF assms False] obtain c rest
    where "join_path st = c # rest" "c \<noteq> CHR ''/''" by auto
  then show ?thesis using False by (simp add: render_def IsAbs_def)
qed

lemma render_nonempty: assumes "okst r (rev st)" shows "render r st \<noteq> []"
proof (cases "st = []")
  case True
  then show ?thesis by (simp add: render_def)
next
  case False
  from join_path_ok_hd[OF assms False] obtain c rest where "join_path st = c # rest" by auto
  then show ?thesis by (simp add: render_def)
qed

lemma clean_render: assumes "okst r (rev st)" shows "Clean (render r st) = render r st"
proof -
  have abs: "IsAbs (render r st) = r" using assms by (rule IsAbs_render)
  have ns: "\<forall>c\<in>set st. nosep c" using okst_nosep[OF assms] by auto
  have "clean_elems r (split_path (render r st)) = st"
  proof (cases "st = []")
    case True
    then show ?thesis by (cases r) (simp_all add: render_def clean_elems_def clean_step_def)
  next
    case False
    then have "split_path (join_path st) = st" using ns by (simp add: split_join)
    then show ?thesis using False assms
      by (cases r) (simp_all add: render_def clean_elems_skip clean_elems_fix)
  qed
  then show ?thesis by (simp add: Clean_def abs)
qed

lemma Clean_idem: "Clean (Clean p) = Clean p"
  unfolding Clean_def[of p] by (rule clean_render) (rule clean_elems_ok)

lemma IsAbs_Clean: "IsAbs (Clean p) = IsAbs p"
  unfolding Clean_def by (rule IsAbs_render) (rule clean_elems_ok)

lemma Clean_nonempty: "Clean p \<noteq> []"
  unfolding Clean_def by (rule render_nonempty) (rule clean_elems_ok)

lemma IsAbs_append: "a \<noteq> [] \<Longrightarrow> IsAbs (a @ b) = IsAbs a"
  by (cases a) (simp_all add: IsAbs_def)

lemma IsAbs_Join: assumes "IsAbs a" shows "IsAbs (Join a b)"
proof -
  from assms have ne: "a \<noteq> []" by (auto simp: IsAbs_def)
  then have "Join a b = Clean (a @ CHR ''/'' # b)" by (simp add: Join_def)
  then show ?thesis using assms ne by (simp add: IsAbs_Clean IsAbs_append)
qed

lemma Clean_Join: "a \<noteq> [] \<Longrightarrow> Clean (Join a b) = Join a b"
  by (simp add: Join_def Clean_idem)

lemma IsAbs_nonempty: "IsAbs a \<Longrightarrow> a \<noteq> []"
  by (auto simp: IsAbs_def)

text \<open>
  Joining a relative path to an absolute one: the relative path may be cleaned first, and
  a further element may be joined before or after.
\<close>

lemma split_path_append: "split_path (a @ CHR ''/'' # b) = split_path a @ split_path b"
proof (induction a)
  case Nil
  then show ?case by simp
next
  case (Cons c cs)
  obtain y ys where s: "split_path cs = y # ys" using split_path_nonempty[of cs] by (cases "split_path cs") auto
  with Cons show ?case by simp
qed

lemma absorb_step:
  assumes "okst False stk"
  shows "foldl (clean_step True) s (rev (clean_step False stk y))
       = clean_step True (foldl (clean_step True) s (rev stk)) y"
proof (cases "y = [] \<or> y = ''.''")
  case True
  then show ?thesis by (auto simp: clean_step_def)
next
  case skip: False
  show ?thesis
  proof (cases "y = ''..''")
    case False
    with skip have "clean_step False stk y = y # stk" by (simp add: clean_step_def)
    then show ?thesis by simp
  next
    case dd: True
    show ?thesis
    proof (cases stk)
      case Nil
      with dd show ?thesis by (simp add: clean_step_def)
    next
      case (Cons t ts)
      show ?thesis
      proof (cases "t = ''..''")
        case True
        with dd Cons have "clean_step False stk y = y # stk" by (simp add: clean_step_def)
        then show ?thesis by simp
      next
        case False
        with dd Cons have e: "clean_step False stk y = ts" by (simp add: clean_step_def)
        from assms Cons have t: "t \<noteq> []" "t \<noteq> ''.''" by simp_all
        let ?X = "foldl (clean_step True) s (rev ts)"
        have "clean_step True ?X t = t # ?X" using t False by (simp add: clean_step_def)
        then have "clean_step True (clean_step True ?X t) y = ?X"
          using dd False by (simp add: clean_step_def)
        with e Cons show ?thesis by simp
      qed
    qed
  qed
qed

lemma absorb:
  assumes "\<forall>c\<in>set ys. nosep c"
  shows "foldl (clean_step True) s (clean_elems False ys) = foldl (clean_step True) s ys"
  using assms
proof (induction ys rule: rev_induct)
  case Nil
  then show ?case by (simp add: clean_elems_def)
next
  case (snoc y ys)
  let ?stk = "foldl (clean_step False) [] ys"
  from snoc.prems have ns: "\<forall>c\<in>set ys. nosep c" by simp
  then have ok: "okst False ?stk" by (intro okst_foldl) simp_all
  have "foldl (clean_step True) s (clean_elems False (ys @ [y]))
      = foldl (clean_step True) s (rev (clean_step False ?stk y))"
    by (simp add: clean_elems_def)
  also have "\<dots> = clean_step True (foldl (clean_step True) s (rev ?stk)) y"
    using ok by (rule absorb_step)
  also have "foldl (clean_step True) s (rev ?stk) = foldl (clean_step True) s ys"
    using snoc.IH[OF ns] by (simp add: clean_elems_def)
  finally show ?case by simp
qed

lemma split_render_rel:
  assumes "okst False (rev st)"
  shows "foldl (clean_step r) s (split_path (render False st)) = foldl (clean_step r) s st"
proof (cases "st = []")
  case True
  then show ?thesis by (simp add: render_def clean_step_def)
next
  case False
  have ns: "\<forall>c\<in>set st. nosep c" using okst_nosep[OF assms] by auto
  with False have "split_path (join_path st) = st" by (simp add: split_join)
  with False show ?thesis by (simp add: render_def)
qed

lemma split_render_abs:
  assumes "okst True (rev st)"
  shows "foldl (clean_step True) [] (split_path (render True st)) = rev st"
proof (cases "st = []")
  case True
  then show ?thesis by (simp add: render_def clean_step_def)
next
  case False
  have ns: "\<forall>c\<in>set st. nosep c" using okst_nosep[OF assms] by auto
  with False have "split_path (join_path st) = st" by (simp add: split_join)
  moreover have "foldl (clean_step True) [] st = rev st"
    using foldl_ok[of True st "[]"] assms by simp
  ultimately show ?thesis using False by (simp add: render_def clean_step_def)
qed

lemma Join_abs_eq:
  assumes "IsAbs d"
  shows "Join d p = render True (rev (foldl (clean_step True)
           (foldl (clean_step True) [] (split_path d)) (split_path p)))"
proof -
  from assms have ne: "d \<noteq> []" by (rule IsAbs_nonempty)
  then have "IsAbs (d @ CHR ''/'' # p)" using assms by (simp add: IsAbs_append)
  then show ?thesis using ne
    by (simp add: Join_def Clean_def clean_elems_def split_path_append)
qed

lemma Join_Clean_rel:
  assumes "IsAbs d" "\<not> IsAbs p"
  shows "Join d (Clean p) = Join d p"
proof -
  let ?D = "foldl (clean_step True) [] (split_path d)"
  have ok: "okst False (rev (clean_elems False (split_path p)))" by (rule clean_elems_ok)
  have "foldl (clean_step True) ?D (split_path (Clean p))
      = foldl (clean_step True) ?D (clean_elems False (split_path p))"
    using assms(2) split_render_rel[OF ok] by (simp add: Clean_def)
  also have "\<dots> = foldl (clean_step True) ?D (split_path p)"
    by (rule absorb) (simp add: split_path_nosep)
  finally show ?thesis by (simp add: Join_abs_eq[OF assms(1)])
qed

lemma Join_assoc:
  assumes "IsAbs d" "\<not> IsAbs M" "M \<noteq> []"
  shows "Join d (Join M s) = Join (Join d M) s"
proof -
  let ?D = "foldl (clean_step True) [] (split_path d)"
  let ?DM = "foldl (clean_step True) ?D (split_path M)"
  have rel: "\<not> IsAbs (M @ CHR ''/'' # s)" using assms(2,3) by (simp add: IsAbs_append)
  have "Join d (Join M s) = Join d (M @ CHR ''/'' # s)"
    using assms(3) Join_Clean_rel[OF assms(1) rel] by (simp add: Join_def)
  also have "\<dots> = render True (rev (foldl (clean_step True) ?DM (split_path s)))"
    by (simp add: Join_abs_eq[OF assms(1)] split_path_append)
  finally have lhs: "Join d (Join M s) = render True (rev (foldl (clean_step True) ?DM (split_path s)))" .
  have okD: "okst True ?D" by (intro okst_foldl) (simp_all add: split_path_nosep)
  have okDM: "okst True ?DM" using okD by (intro okst_foldl) (simp_all add: split_path_nosep)
  have jd: "Join d M = render True (rev ?DM)" by (rule Join_abs_eq[OF assms(1)])
  have absj: "IsAbs (Join d M)" using assms(1) by (rule IsAbs_Join)
  have "foldl (clean_step True) [] (split_path (Join d M)) = ?DM"
    using split_render_abs[of "rev ?DM"] okDM jd by simp
  then have "Join (Join d M) s = render True (rev (foldl (clean_step True) ?DM (split_path s)))"
    using Join_abs_eq[OF absj, of s] by simp
  with lhs show ?thesis by simp
qed

section \<open>Relative paths for the report\<close>

lemma TrimPrefix_append: "TrimPrefix (b @ s) b = s"
  by (simp add: TrimPrefix_def HasPrefix_def)

lemma TrimPrefix_sep: "TrimPrefix (CHR ''/'' # s) ''/'' = s"
  by (simp add: TrimPrefix_def HasPrefix_def)

lemma TrimPrefix_self: "TrimPrefix b b = []"
  by (simp add: TrimPrefix_def HasPrefix_def)

lemma TrimPrefix_nil: "TrimPrefix [] p = []"
  by (simp add: TrimPrefix_def HasPrefix_def)

lemma HasPrefix_append: "HasPrefix (b @ s) b"
  by (simp add: HasPrefix_def)

lemma ConvertToRelativePath_abs:
  assumes "IsAbs basePath" "IsAbs path"
  shows "ConvertToRelativePath basePath path =
     (if HasPrefix (Clean path) (Clean basePath)
      then Inr (TrimPrefix (TrimPrefix (Clean path) (Clean basePath)) ''/'')
      else (case Rel (Clean basePath) (Clean path) of
              Inl e \<Rightarrow> Inl (Wrapf ''failed to compute relative path: %w'' [] e)
            | Inr relPath \<Rightarrow> Inr relPath))"
  using assms by (simp add: ConvertToRelativePath_def Let_def)

lemma ConvertToRelativePath_ex1:
  "ConvertToRelativePath ''/root/project'' ''/root/project/a/b'' = Inr ''a/b''"
  by code_simp

lemma ConvertToRelativePath_ex2:
  "ConvertToRelativePath ''/root/project'' ''/root/project'' = Inr []"
  by code_simp

lemma ConvertToRelativePath_ex3:
  "ConvertToRelativePath ''/root/project'' ''/root/other'' = Inr ''../other''"
  by code_simp

text \<open>
  C6. For absolute inputs \<^verbatim>\<open>ConvertToRelativePath\<close> cleans both paths. When the cleaned
  path starts with the cleaned base path, the result is what remains of the path once the
  base path and one leading separator are removed: the rest \<open>s\<close> when the path is the
  base path, a separator and \<open>s\<close>, and the empty string when the two are the same. When
  the cleaned path does not start with the cleaned base path, the result is that of
  \<^verbatim>\<open>filepath.Rel\<close>, which may climb with \<^verbatim>\<open>..\<close>. The three examples of the
  specification evaluate as it says.
\<close>

theorem ConvertToRelativePath_spec:
  assumes "IsAbs basePath" "IsAbs path"
  shows "(HasPrefix (Clean path) (Clean basePath) \<longrightarrow>
            ConvertToRelativePath basePath path =
              Inr (TrimPrefix (TrimPrefix (Clean path) (Clean basePath)) ''/''))
       \<and> (\<forall>s. Clean path = Clean basePath @ CHR ''/'' # s \<longrightarrow>
            ConvertToRelativePath basePath path = Inr s)
       \<and> (Clean path = Clean basePath \<longrightarrow> ConvertToRelativePath basePath path = Inr [])
       \<and> (\<not> HasPrefix (Clean path) (Clean basePath) \<longrightarrow>
            ConvertToRelativePath basePath path =
              (case Rel (Clean basePath) (Clean path) of
                 Inl e \<Rightarrow> Inl (Wrapf ''failed to compute relative path: %w'' [] e)
               | Inr relPath \<Rightarrow> Inr relPath))
       \<and> ConvertToRelativePath ''/root/project'' ''/root/project/a/b'' = Inr ''a/b''
       \<and> ConvertToRelativePath ''/root/project'' ''/root/project'' = Inr []
       \<and> ConvertToRelativePath ''/root/project'' ''/root/other'' = Inr ''../other''"
proof -
  note eq = ConvertToRelativePath_abs[OF assms]
  have under: "ConvertToRelativePath basePath path = Inr s"
    if "Clean path = Clean basePath @ CHR ''/'' # s" for s
    using that eq by (simp add: HasPrefix_append TrimPrefix_append TrimPrefix_sep)
  have same: "ConvertToRelativePath basePath path = Inr []" if "Clean path = Clean basePath"
    using that eq HasPrefix_append[of "Clean basePath" "[]"]
    by (simp add: TrimPrefix_self TrimPrefix_nil)
  show ?thesis
    using eq under same ConvertToRelativePath_ex1 ConvertToRelativePath_ex2
      ConvertToRelativePath_ex3 by simp
qed

theorem ConvertToRelativePath_spec_witness:
  "IsAbs ''/srv/infra'' \<and> IsAbs ''/srv/infra/envs//dev/''
   \<and> Clean ''/srv/infra/envs//dev/'' = Clean ''/srv/infra'' @ CHR ''/'' # ''envs/dev''
   \<and> ConvertToRelativePath ''/srv/infra'' ''/srv/infra/envs//dev/'' = Inr ''envs/dev''"
proof -
  have a: "IsAbs ''/srv/infra''" and b: "IsAbs ''/srv/infra/envs//dev/''"
    by (simp_all add: IsAbs_def)
  have c: "Clean ''/srv/infra/envs//dev/'' = Clean ''/srv/infra'' @ CHR ''/'' # ''envs/dev''"
    by code_simp
  from ConvertToRelativePath_spec[OF a b] c
  have "ConvertToRelativePath ''/srv/infra'' ''/srv/infra/envs//dev/'' = Inr ''envs/dev''"
    by blast
  with a b c show ?thesis by blast
qed

section \<open>The declaration extractor\<close>

lemma findTerraformFiles_loop_eq:
  "findTerraformFiles_loop dir entries tfFiles = tfFiles @ declarationFiles dir entries"
  by (induction entries arbitrary: tfFiles) (simp_all add: declarationFiles_def)

lemma resolveSources_eq:
  "resolveSources env moduleDir modules childModules =
     childModules @ map (\<lambda>source. Clean (Join moduleDir source))
                      (filter (localSource env moduleDir) modules)"
  by (induction modules arbitrary: childModules)
     (simp_all add: localSource_def resolveModulePath_def)

lemma FindChildModules_loop_ok:
  "\<forall>f\<in>set tfFiles. parses env f \<Longrightarrow>
   FindChildModules_loop env moduleDir tfFiles childModules =
     Inr (childModules @ map (\<lambda>source. Clean (Join moduleDir source))
            (filter (localSource env moduleDir) (declaredSources env tfFiles)))"
proof (induction tfFiles arbitrary: childModules)
  case Nil
  then show ?case by (simp add: declaredSources_def)
next
  case (Cons f fs)
  from Cons.prems obtain ss where ss: "extractModuleSources env f = Inr ss"
    by (auto simp: parses_def split: sum.splits)
  have ds: "declaredSources env (f # fs) = ss @ declaredSources env fs"
    by (simp add: declaredSources_def ss)
  from Cons.prems have "\<forall>f\<in>set fs. parses env f" by simp
  from Cons.IH[OF this] show ?case by (simp add: ss ds resolveSources_eq)
qed

lemma FindChildModules_loop_fail:
  "\<not> (\<forall>f\<in>set tfFiles. parses env f) \<Longrightarrow>
   \<exists>e. FindChildModules_loop env moduleDir tfFiles childModules = Inl e"
proof (induction tfFiles arbitrary: childModules)
  case Nil
  then show ?case by simp
next
  case (Cons f fs)
  show ?case
  proof (cases "extractModuleSources env f")
    case (Inl e)
    then show ?thesis by simp
  next
    case (Inr ss)
    then have "parses env f" by (simp add: parses_def)
    with Cons.prems have "\<not> (\<forall>f\<in>set fs. parses env f)" by simp
    from Cons.IH[OF this] show ?thesis by (simp add: Inr)
  qed
qed

lemma FindChildModules_char:
  "FindChildModules env moduleDir = Inr childModules \<longleftrightarrow>
     (\<exists>entries. ReadDir env moduleDir = Inr entries
        \<and> (\<forall>f\<in>set (declarationFiles moduleDir entries). parses env f)
        \<and> childModules = childModules_spec env moduleDir entries)"
proof (cases "ReadDir env moduleDir")
  case (Inl e)
  then show ?thesis by (simp add: FindChildModules_def findTerraformFiles_def)
next
  case (Inr entries)
  then have eq: "FindChildModules env moduleDir =
      FindChildModules_loop env moduleDir (declarationFiles moduleDir entries) []"
    by (simp add: FindChildModules_def findTerraformFiles_def findTerraformFiles_loop_eq)
  show ?thesis
  proof (cases "\<forall>f\<in>set (declarationFiles moduleDir entries). parses env f")
    case True
    from FindChildModules_loop_ok[OF True, of moduleDir "[]"] eq
    have "FindChildModules env moduleDir = Inr (childModules_spec env moduleDir entries)"
      by (simp add: childModules_spec_def)
    with Inr True show ?thesis by auto
  next
    case False
    from FindChildModules_loop_fail[OF False, of moduleDir "[]"] eq
    obtain e where "FindChildModules env moduleDir = Inl e" by auto
    with Inr False show ?thesis by simp
  qed
qed

text \<open>
  C7. \<^verbatim>\<open>FindChildModules\<close> succeeds exactly when the directory can be read and every
  declaration file in it parses, and then it returns the declared sources that are not
  absolute and whose path under the module directory is not reported missing by
  \<^verbatim>\<open>os.Stat\<close>, each joined to the module directory and cleaned, in the order of
  declaration and with duplicates kept. Every other source is dropped without an error.
\<close>

theorem FindChildModules_spec:
  "FindChildModules env moduleDir = Inr childModules \<longleftrightarrow>
     (\<exists>entries. ReadDir env moduleDir = Inr entries
        \<and> (\<forall>f\<in>set (declarationFiles moduleDir entries). parses env f)
        \<and> childModules = childModules_spec env moduleDir entries)"
  by (rule FindChildModules_char)

lemma env_ex_ReadDir_dev:
  "ReadDir env_ex ''/r/env/dev'' =
     Inr [\<lparr>Name = ''.terraform'', IsDir = True\<rparr>, \<lparr>Name = ''README.md'', IsDir = False\<rparr>,
          \<lparr>Name = ''main.tf'', IsDir = False\<rparr>]"
  by code_simp

lemma env_ex_children_dev:
  "FindChildModules env_ex ''/r/env/dev'' = Inr [''/r/mod/a'', ''/r/mod/b'', ''/r/mod/a'']"
  by code_simp

theorem FindChildModules_spec_witness:
  "ReadDir env_ex ''/r/env/dev'' =
     Inr [\<lparr>Name = ''.terraform'', IsDir = True\<rparr>, \<lparr>Name = ''README.md'', IsDir = False\<rparr>,
          \<lparr>Name = ''main.tf'', IsDir = False\<rparr>]
   \<and> childModules_spec env_ex ''/r/env/dev''
        [\<lparr>Name = ''.terraform'', IsDir = True\<rparr>, \<lparr>Name = ''README.md'', IsDir = False\<rparr>,
         \<lparr>Name = ''main.tf'', IsDir = False\<rparr>] = [''/r/mod/a'', ''/r/mod/b'', ''/r/mod/a'']"
  using FindChildModules_spec[of env_ex "''/r/env/dev''" "[''/r/mod/a'', ''/r/mod/b'', ''/r/mod/a'']"]
    env_ex_children_dev env_ex_ReadDir_dev by simp

section \<open>The analyzer: one activation of \<^verbatim>\<open>IsModuleUpdated\<close>\<close>

lemma log_simps [simp]:
  "analysisCache (log a lv msg at) = analysisCache a"
  "changedFiles (log a lv msg at) = changedFiles a"
  "calls (log a lv msg at) = calls a"
  "logger (log a lv msg at) = logger a @ [(lv, msg, at)]"
  by (simp_all add: log_def)

lemma called_simps [simp]:
  "analysisCache (called a c) = analysisCache a"
  "changedFiles (called a c) = changedFiles a"
  "calls (called a c) = calls a @ [c]"
  "logger (called a c) = logger a"
  by (simp_all add: called_def)

lemma getAnalysisCache_key:
  "getAnalysisCache env a m =
     (case cacheKey env m of Inl e \<Rightarrow> Inl e | Inr k \<Rightarrow> Inr (analysisCache a k))"
  by (simp add: getAnalysisCache_def cacheKey_def split: sum.splits)

lemma cacheAndReturn_key:
  "cacheKey env m = Inr k \<Longrightarrow>
   cacheAndReturn env a m v = (Inr v, a\<lparr>analysisCache := (analysisCache a)(k \<mapsto> v)\<rparr>)"
  by (simp add: cacheAndReturn_def setAnalysisCache_def cacheKey_def split: sum.splits if_splits)

lemma cacheAndReturn_keyerr:
  "cacheKey env m = Inl e \<Longrightarrow> cacheAndReturn env a m v = (Inl e, a)"
  by (simp add: cacheAndReturn_def setAnalysisCache_def cacheKey_def split: sum.splits if_splits)

lemma cacheKey_abs: "IsAbs m \<Longrightarrow> cacheKey env m = Inr (Clean m)"
  by (simp add: cacheKey_def)

lemma cacheKey_canonical:
  assumes "cacheKey env m = Inr k" and wd: "\<And>d. Getwd env = Inr d \<Longrightarrow> IsAbs d"
  shows "IsAbs k \<and> Clean k = k"
proof (cases "IsAbs m")
  case True
  with assms(1) show ?thesis by (auto simp: cacheKey_def IsAbs_Clean Clean_idem)
next
  case False
  with assms(1) obtain d where d: "Getwd env = Inr d" and k: "k = Clean (Join d m)"
    by (auto simp: cacheKey_def Abs_def split: sum.splits)
  from wd[OF d] have "IsAbs (Join d m)" by (rule IsAbs_Join)
  with k show ?thesis by (simp add: IsAbs_Clean Clean_idem)
qed

subsection \<open>The direct-change check\<close>

lemma hdfc_loop_state:
  "hasDirectFileChanges_loop env a M es = (r, a') \<Longrightarrow>
     analysisCache a' = analysisCache a \<and> changedFiles a' = changedFiles a
     \<and> calls a' = calls a \<and> (\<exists>ls. logger a' = logger a @ ls)"
proof (induction es)
  case Nil
  then show ?case by simp
next
  case (Cons e es)
  show ?case
  proof (cases "IsDir e")
    case True
    with Cons show ?thesis by simp
  next
    case False
    show ?thesis
    proof (cases "Abs env (Clean (Join M (Name e)))")
      case (Inl x)
      with False Cons.prems show ?thesis by (simp add: Let_def)
    next
      case (Inr p)
      show ?thesis
      proof (cases "p \<in> changedFiles a")
        case True
        with False Inr Cons.prems show ?thesis by (auto simp: Let_def)
      next
        case nin: False
        with False Inr Cons show ?thesis by (simp add: Let_def)
      qed
    qed
  qed
qed

lemma hdfc_loop_value:
  "changedFiles a = changedFiles b \<Longrightarrow>
   fst (hasDirectFileChanges_loop env a M es) = fst (hasDirectFileChanges_loop env b M es)"
  by (induction es) (simp_all add: Let_def split: sum.splits)

lemma hdfc_state:
  assumes "hasDirectFileChanges env a M = (r, a')"
  shows "analysisCache a' = analysisCache a \<and> changedFiles a' = changedFiles a
     \<and> calls a' = calls a @ [CallReadDir (Clean M)] \<and> (\<exists>ls. logger a' = logger a @ ls)"
proof (cases "ReadDir env (Clean M)")
  case (Inl e)
  with assms show ?thesis by (auto simp: hasDirectFileChanges_def Let_def)
next
  case (Inr es)
  with assms have "hasDirectFileChanges_loop env (called a (CallReadDir (Clean M))) (Clean M) es = (r, a')"
    by (simp add: hasDirectFileChanges_def Let_def)
  from hdfc_loop_state[OF this] show ?thesis by simp
qed

lemma hdfc_value:
  "changedFiles a = changedFiles b \<Longrightarrow>
   fst (hasDirectFileChanges env a M) = fst (hasDirectFileChanges env b M)"
  using hdfc_loop_value[of "called a (CallReadDir (Clean M))" "called b (CallReadDir (Clean M))" env "Clean M"]
  by (simp add: hasDirectFileChanges_def Let_def split: sum.splits)

subsection \<open>The cases of one activation\<close>

lemma IMU_keyerr:
  "cacheKey env (Clean m) = Inl e \<Longrightarrow> IsModuleUpdated (Suc n) env a m = Some (Inl e, a)"
  by (simp add: IsModuleUpdated.simps(2) getAnalysisCache_key)

lemma IMU_hit:
  "cacheKey env (Clean m) = Inr k \<Longrightarrow> analysisCache a k = Some b \<Longrightarrow>
   IsModuleUpdated (Suc n) env a m =
     Some (Inr b, log a LevelDebug ''Cache hit'' [S (Clean m), B b])"
  by (simp add: IsModuleUpdated.simps(2) getAnalysisCache_key)

lemma IMU_miss:
  assumes "cacheKey env (Clean m) = Inr k" "analysisCache a k = None"
  shows "IsModuleUpdated (Suc n) env a m =
     (if Stat env (Clean m) = NotExist
      then Some (Inr False,
             (log (begun a (Clean m)) LevelWarn ''Module directory does not exist'' [S (Clean m)])
               \<lparr>analysisCache := (analysisCache a)(k \<mapsto> False)\<rparr>)
      else (case hasDirectFileChanges env (begun a (Clean m)) (Clean m) of
        (Inl e, a2) \<Rightarrow>
          Some (Inl (Wrapf ''failed to check direct changes in %s: %w'' [Clean m] e), a2)
      | (Inr True, a2) \<Rightarrow>
          Some (Inr True,
             (log a2 LevelDebug ''Module has direct file changes'' [S (Clean m)])
               \<lparr>analysisCache := (analysisCache a2)(k \<mapsto> True)\<rparr>)
      | (Inr False, a2) \<Rightarrow>
          (case FindChildModules env (Clean m) of
             Inl e \<Rightarrow>
               Some (Inr False,
                 (log (descending a2 (Clean m)) LevelWarn ''Failed to find child modules''
                    [S (Clean m), E e])
                   \<lparr>analysisCache := (analysisCache a2)(k \<mapsto> False)\<rparr>)
           | Inr cs \<Rightarrow>
               childLoop (IsModuleUpdated n env) env
                 (log (descending a2 (Clean m)) LevelDebug ''Found child modules''
                    [S (Clean m), L cs])
                 (Clean m) cs)))"
  using assms
  by (simp add: IsModuleUpdated.simps(2) getAnalysisCache_key Let_def begun_def descending_def
        cacheAndReturn_key split: sum.splits prod.splits bool.splits)

lemma hdfc_cases:
  obtains (hd_err) e a2 where "hasDirectFileChanges env a M = (Inl e, a2)"
  | (hd_true) a2 where "hasDirectFileChanges env a M = (Inr True, a2)"
  | (hd_false) a2 where "hasDirectFileChanges env a M = (Inr False, a2)"
proof (cases "hasDirectFileChanges env a M")
  case (Pair r a2)
  show ?thesis
  proof (cases r)
    case (Inl e)
    with Pair hd_err show ?thesis by simp
  next
    case (Inr b)
    with Pair hd_true hd_false show ?thesis by (cases b) simp_all
  qed
qed

text \<open>More depth never changes the outcome of a call that returned.\<close>

lemma childLoop_mono:
  assumes "\<And>a c x. rec a c = Some x \<Longrightarrow> rec' a c = Some x"
  shows "childLoop rec env a M cs = Some x \<Longrightarrow> childLoop rec' env a M cs = Some x"
proof (induction cs arbitrary: a)
  case Nil
  then show ?case by simp
next
  case (Cons c cs)
  from Cons.prems obtain r a1 where rc: "rec a c = Some (r, a1)"
    by (cases "rec a c") auto
  then have rc': "rec' a c = Some (r, a1)" by (rule assms)
  show ?case
  proof (cases r)
    case (Inl e)
    with Cons.prems rc rc' show ?thesis by simp
  next
    case (Inr b)
    show ?thesis
    proof (cases b)
      case True
      with Inr Cons.prems rc rc' show ?thesis by simp
    next
      case False
      with Inr Cons.prems rc have "childLoop rec env a1 M cs = Some x" by simp
      then have "childLoop rec' env a1 M cs = Some x" by (rule Cons.IH)
      with False Inr rc' show ?thesis by simp
    qed
  qed
qed

lemma IMU_Suc: "IsModuleUpdated n env a m = Some x \<Longrightarrow> IsModuleUpdated (Suc n) env a m = Some x"
proof (induction n arbitrary: a m x)
  case 0
  then show ?case by simp
next
  case (Suc n)
  have step: "\<And>a c x. IsModuleUpdated n env a c = Some x \<Longrightarrow> IsModuleUpdated (Suc n) env a c = Some x"
    by (rule Suc.IH)
  show ?case
  proof (cases "cacheKey env (Clean m)")
    case (Inl e)
    with Suc.prems show ?thesis by (simp add: IMU_keyerr)
  next
    case (Inr k)
    show ?thesis
    proof (cases "analysisCache a k")
      case (Some b)
      with Inr Suc.prems show ?thesis by (simp add: IMU_hit)
    next
      case None
      note miss = IMU_miss[OF Inr None]
      show ?thesis
      proof (cases "Stat env (Clean m) = NotExist")
        case True
        with Suc.prems show ?thesis by (simp add: miss)
      next
        case ex: False
        show ?thesis
        proof (cases rule: hdfc_cases[of env "begun a (Clean m)" "Clean m"])
          case (hd_err e a2)
          with ex Suc.prems show ?thesis by (simp add: miss)
        next
          case (hd_true a2)
          with ex Suc.prems show ?thesis by (simp add: miss)
        next
          case (hd_false a2)
          show ?thesis
          proof (cases "FindChildModules env (Clean m)")
            case (Inl e)
            with hd_false ex Suc.prems show ?thesis by (simp add: miss)
          next
            case (Inr cs)
            with hd_false ex Suc.prems have
              "childLoop (IsModuleUpdated n env) env
                 (log (descending a2 (Clean m)) LevelDebug ''Found child modules'' [S (Clean m), L cs])
                 (Clean m) cs = Some x"
              by (simp add: miss)
            from childLoop_mono[of "IsModuleUpdated n env" "IsModuleUpdated (Suc n) env", OF step this]
            show ?thesis using hd_false ex Inr by (simp add: miss)
          qed
        qed
      qed
    qed
  qed
qed

lemma IMU_mono:
  assumes "IsModuleUpdated n env a m = Some x" "n \<le> n'"
  shows "IsModuleUpdated n' env a m = Some x"
  using assms(2,1) by (induction rule: dec_induct) (simp_all add: IMU_Suc)

text \<open>An elimination rule for a call that returned.\<close>

lemma IMU_cases [consumes 1, case_names keyerr hit notexist direrr direct parseerr children]:
  assumes "IsModuleUpdated (Suc n) env a m = Some (r, a')"
  obtains
    (keyerr) e where "cacheKey env (Clean m) = Inl e" "r = Inl e" "a' = a"
  | (hit) k b where "cacheKey env (Clean m) = Inr k" "analysisCache a k = Some b"
      "r = Inr b" "a' = log a LevelDebug ''Cache hit'' [S (Clean m), B b]"
  | (notexist) k where "cacheKey env (Clean m) = Inr k" "analysisCache a k = None"
      "Stat env (Clean m) = NotExist" "r = Inr False"
      "a' = (log (begun a (Clean m)) LevelWarn ''Module directory does not exist'' [S (Clean m)])
               \<lparr>analysisCache := (analysisCache a)(k \<mapsto> False)\<rparr>"
  | (direrr) k e where "cacheKey env (Clean m) = Inr k" "analysisCache a k = None"
      "Stat env (Clean m) \<noteq> NotExist"
      "hasDirectFileChanges env (begun a (Clean m)) (Clean m) = (Inl e, a')"
      "r = Inl (Wrapf ''failed to check direct changes in %s: %w'' [Clean m] e)"
  | (direct) k a2 where "cacheKey env (Clean m) = Inr k" "analysisCache a k = None"
      "Stat env (Clean m) \<noteq> NotExist"
      "hasDirectFileChanges env (begun a (Clean m)) (Clean m) = (Inr True, a2)"
      "r = Inr True"
      "a' = (log a2 LevelDebug ''Module has direct file changes'' [S (Clean m)])
               \<lparr>analysisCache := (analysisCache a2)(k \<mapsto> True)\<rparr>"
  | (parseerr) k a2 e where "cacheKey env (Clean m) = Inr k" "analysisCache a k = None"
      "Stat env (Clean m) \<noteq> NotExist"
      "hasDirectFileChanges env (begun a (Clean m)) (Clean m) = (Inr False, a2)"
      "FindChildModules env (Clean m) = Inl e" "r = Inr False"
      "a' = (log (descending a2 (Clean m)) LevelWarn ''Failed to find child modules''
                    [S (Clean m), E e])
                   \<lparr>analysisCache := (analysisCache a2)(k \<mapsto> False)\<rparr>"
  | (children) k a2 cs where "cacheKey env (Clean m) = Inr k" "analysisCache a k = None"
      "Stat env (Clean m) \<noteq> NotExist"
      "hasDirectFileChanges env (begun a (Clean m)) (Clean m) = (Inr False, a2)"
      "FindChildModules env (Clean m) = Inr cs"
      "childLoop (IsModuleUpdated n env) env
         (log (descending a2 (Clean m)) LevelDebug ''Found child modules'' [S (Clean m), L cs])
         (Clean m) cs = Some (r, a')"
proof (cases "cacheKey env (Clean m)")
  case (Inl e)
  with assms have "r = Inl e" "a' = a" by (simp_all add: IMU_keyerr)
  with Inl show ?thesis by (rule keyerr)
next
  case (Inr k)
  show ?thesis
  proof (cases "analysisCache a k")
    case (Some b)
    with Inr assms have "r = Inr b" "a' = log a LevelDebug ''Cache hit'' [S (Clean m), B b]"
      by (simp_all add: IMU_hit)
    with Inr Some show ?thesis by (rule hit)
  next
    case None
    note miss = IMU_miss[OF Inr None]
    show ?thesis
    proof (cases "Stat env (Clean m) = NotExist")
      case True
      with assms have "r = Inr False"
        "a' = (log (begun a (Clean m)) LevelWarn ''Module directory does not exist'' [S (Clean m)])
               \<lparr>analysisCache := (analysisCache a)(k \<mapsto> False)\<rparr>"
        by (simp_all add: miss)
      with Inr None True show ?thesis by (rule notexist)
    next
      case ex: False
      show ?thesis
      proof (cases rule: hdfc_cases[of env "begun a (Clean m)" "Clean m"])
        case (hd_err e a2)
        with ex assms have "a2 = a'"
          "r = Inl (Wrapf ''failed to check direct changes in %s: %w'' [Clean m] e)"
          by (simp_all add: miss)
        with Inr None ex hd_err show ?thesis using direrr by blast
      next
        case (hd_true a2)
        with ex assms have "r = Inr True"
          "a' = (log a2 LevelDebug ''Module has direct file changes'' [S (Clean m)])
               \<lparr>analysisCache := (analysisCache a2)(k \<mapsto> True)\<rparr>"
          by (simp_all add: miss)
        with Inr None ex hd_true show ?thesis by (rule direct)
      next
        case (hd_false a2)
        show ?thesis
        proof (cases "FindChildModules env (Clean m)")
          case (Inl e)
          with hd_false ex assms have "r = Inr False"
            "a' = (log (descending a2 (Clean m)) LevelWarn ''Failed to find child modules''
                    [S (Clean m), E e])
                   \<lparr>analysisCache := (analysisCache a2)(k \<mapsto> False)\<rparr>"
            by (simp_all add: miss)
          with Inr None ex hd_false Inl show ?thesis by (rule parseerr)
        next
          case cs: (Inr cs)
          with hd_false ex assms have "childLoop (IsModuleUpdated n env) env
             (log (descending a2 (Clean m)) LevelDebug ''Found child modules'' [S (Clean m), L cs])
             (Clean m) cs = Some (r, a')"
            by (simp add: miss)
          with Inr None ex hd_false cs show ?thesis by (rule children)
        qed
      qed
    qed
  qed
qed

section \<open>Calls that return: the relation and the function agree\<close>

lemma childLoop_loop:
  assumes rec: "\<And>a c r a'. rec a c = Some (r, a') \<Longrightarrow> run env a c r a'"
  shows "childLoop rec env a M cs = Some (r, a') \<Longrightarrow> loop env a M cs r a'"
proof (induction cs arbitrary: a)
  case Nil
  then show ?case by (simp add: loop_done)
next
  case (Cons c cs)
  from Cons.prems obtain rc a1 where rc: "rec a c = Some (rc, a1)"
    by (cases "rec a c") auto
  then have run1: "run env a c rc a1" by (rule rec)
  show ?case
  proof (cases rc)
    case (Inl e)
    with Cons.prems rc have "r = Inl (Wrapf ''failed to analyze child module %s: %w'' [c] e)" "a' = a1"
      by simp_all
    with run1 Inl show ?thesis by (simp add: loop_err)
  next
    case (Inr b)
    show ?thesis
    proof (cases b)
      case True
      with Inr Cons.prems rc have
        "cacheAndReturn env (log a1 LevelDebug ''Child module is updated'' [S M, S c]) M True = (r, a')"
        by simp
      moreover from run1 Inr True have "run env a c (Inr True) a1" by simp
      ultimately show ?thesis by (rule loop_true[rotated])
    next
      case False
      with Inr Cons.prems rc have "childLoop rec env a1 M cs = Some (r, a')" by simp
      then have "loop env a1 M cs r a'" by (rule Cons.IH)
      moreover from run1 Inr False have "run env a c (Inr False) a1" by simp
      ultimately show ?thesis by (rule loop_false[rotated])
    qed
  qed
qed

lemma IMU_run: "IsModuleUpdated n env a m = Some (r, a') \<Longrightarrow> run env a m r a'"
proof (induction n arbitrary: a m r a')
  case 0
  then show ?case by simp
next
  case (Suc n)
  from Suc.prems show ?case
  proof (cases rule: IMU_cases)
    case (keyerr e)
    then show ?thesis by (simp add: run_loop.keyerr)
  next
    case (hit k b)
    then show ?thesis by (simp add: run_loop.hit)
  next
    case (notexist k)
    then show ?thesis by (simp add: run_loop.notexist)
  next
    case (direrr k e)
    then show ?thesis using run_loop.direrr by blast
  next
    case (direct k a2)
    then show ?thesis using run_loop.direct by blast
  next
    case (parseerr k a2 e)
    then show ?thesis using run_loop.parseerr by blast
  next
    case (children k a2 cs)
    from childLoop_loop[of "IsModuleUpdated n env" env, OF Suc.IH children(6)]
    show ?thesis using children(1-5) run_loop.children by blast
  qed
qed

lemma run_IMU_aux:
  "run env a m r a' \<Longrightarrow> \<exists>n. IsModuleUpdated n env a m = Some (r, a')"
  "loop env a M cs r a' \<Longrightarrow> \<exists>n. childLoop (IsModuleUpdated n env) env a M cs = Some (r, a')"
proof (induction rule: run_loop.inducts)
  case (keyerr m e a)
  then show ?case using IMU_keyerr[of env m e 0 a] by blast
next
  case (hit m k a b)
  then show ?case using IMU_hit[of env m k a b 0] by blast
next
  case (notexist m k a)
  then have "IsModuleUpdated (Suc 0) env a m = Some (Inr False,
          ((log (begun a (Clean m)) LevelWarn ''Module directory does not exist'' [S (Clean m)])
             \<lparr>analysisCache := (analysisCache a)(k \<mapsto> False)\<rparr>))"
    by (simp add: IMU_miss)
  then show ?case by blast
next
  case (direrr m k a e a')
  then have "IsModuleUpdated (Suc 0) env a m =
      Some (Inl (Wrapf ''failed to check direct changes in %s: %w'' [Clean m] e), a')"
    by (simp add: IMU_miss)
  then show ?case by blast
next
  case (direct m k a a2)
  then have "IsModuleUpdated (Suc 0) env a m = Some (Inr True,
          ((log a2 LevelDebug ''Module has direct file changes'' [S (Clean m)])
             \<lparr>analysisCache := (analysisCache a2)(k \<mapsto> True)\<rparr>))"
    by (simp add: IMU_miss)
  then show ?case by blast
next
  case (parseerr m k a a2 e)
  then have "IsModuleUpdated (Suc 0) env a m = Some (Inr False,
          ((log (descending a2 (Clean m)) LevelWarn ''Failed to find child modules''
              [S (Clean m), E e])
             \<lparr>analysisCache := (analysisCache a2)(k \<mapsto> False)\<rparr>))"
    by (simp add: IMU_miss)
  then show ?case by blast
next
  case (children m k a a2 cs r a')
  then obtain n where "childLoop (IsModuleUpdated n env) env
          (log (descending a2 (Clean m)) LevelDebug ''Found child modules'' [S (Clean m), L cs])
          (Clean m) cs = Some (r, a')" by blast
  with children(1-4) children.hyps have "IsModuleUpdated (Suc n) env a m = Some (r, a')"
    by (simp add: IMU_miss)
  then show ?case by blast
next
  case (loop_done a M r a')
  then show ?case by simp
next
  case (loop_err a c e a1 M cs)
  then obtain n where "IsModuleUpdated n env a c = Some (Inl e, a1)" by blast
  then show ?case by (intro exI[of _ n]) simp
next
  case (loop_true a c a1 M r a' cs)
  then obtain n where "IsModuleUpdated n env a c = Some (Inr True, a1)" by blast
  with loop_true(3) show ?case by (intro exI[of _ n]) simp
next
  case (loop_false a c a1 M cs r a')
  then obtain n1 n2 where n1: "IsModuleUpdated n1 env a c = Some (Inr False, a1)"
    and n2: "childLoop (IsModuleUpdated n2 env) env a1 M cs = Some (r, a')" by blast
  have "IsModuleUpdated (max n1 n2) env a c = Some (Inr False, a1)"
    by (rule IMU_mono[OF n1]) simp
  moreover have "childLoop (IsModuleUpdated (max n1 n2) env) env a1 M cs = Some (r, a')"
  proof (rule childLoop_mono[of "IsModuleUpdated n2 env", OF _ n2])
    fix a c x assume "IsModuleUpdated n2 env a c = Some x"
    then show "IsModuleUpdated (max n1 n2) env a c = Some x" by (rule IMU_mono) simp
  qed
  ultimately show ?case by (intro exI[of _ "max n1 n2"]) simp
qed

lemma run_IMU: "run env a m r a' \<Longrightarrow> \<exists>n. IsModuleUpdated n env a m = Some (r, a')"
  by (rule run_IMU_aux(1))

section \<open>The cache\<close>

lemma cacheAndReturn_cases:
  assumes "cacheAndReturn env a M v = (r, a')"
  obtains (fail) e where "cacheKey env M = Inl e" "r = Inl e" "a' = a"
  | (stored) k where "cacheKey env M = Inr k" "r = Inr v"
      "a' = a\<lparr>analysisCache := (analysisCache a)(k \<mapsto> v)\<rparr>"
proof (cases "cacheKey env M")
  case (Inl e)
  with assms have "r = Inl e" "a' = a" by (simp_all add: cacheAndReturn_keyerr)
  with Inl show ?thesis by (rule fail)
next
  case (Inr k)
  with assms have "r = Inr v" "a' = a\<lparr>analysisCache := (analysisCache a)(k \<mapsto> v)\<rparr>"
    by (simp_all add: cacheAndReturn_key)
  with Inr show ?thesis by (rule stored)
qed

lemma begun_simps [simp]:
  "analysisCache (begun a M) = analysisCache a"
  "changedFiles (begun a M) = changedFiles a"
  "calls (begun a M) = calls a @ [CallStat M]"
  by (simp_all add: begun_def)

lemma descending_simps [simp]:
  "analysisCache (descending a M) = analysisCache a"
  "changedFiles (descending a M) = changedFiles a"
  "calls (descending a M) = calls a @ [CallFindChildModules M]"
  by (simp_all add: descending_def)

text \<open>Every verdict that is returned is in the cache under the key of the directory.\<close>

lemma verdict_cached_aux:
  "run env a m r a' \<Longrightarrow>
     \<forall>b. r = Inr b \<longrightarrow> (\<exists>k. cacheKey env (Clean m) = Inr k \<and> analysisCache a' k = Some b)"
  "loop env a M cs r a' \<Longrightarrow>
     \<forall>b k. r = Inr b \<longrightarrow> cacheKey env M = Inr k \<longrightarrow> analysisCache a' k = Some b"
proof (induction rule: run_loop.inducts)
  case (loop_done a M r a')
  then show ?case by (auto elim!: cacheAndReturn_cases)
next
  case (loop_true a c a1 M r a' cs)
  from loop_true(3) show ?case by (auto elim!: cacheAndReturn_cases)
qed simp_all

lemma verdict_cached:
  "run env a m (Inr b) a' \<Longrightarrow> \<exists>k. cacheKey env (Clean m) = Inr k \<and> analysisCache a' k = Some b"
  using verdict_cached_aux(1) by blast

text \<open>The keys of the cache stay canonical.\<close>

lemma canonical_upd:
  assumes "canonical c" "wd_ok env" "cacheKey env M = Inr k"
  shows "canonical (c(k \<mapsto> v))"
proof -
  have wd: "\<And>d. Getwd env = Inr d \<Longrightarrow> IsAbs d" using assms(2) by (simp add: wd_ok_def)
  from cacheKey_canonical[OF assms(3) wd] have "IsAbs k \<and> Clean k = k" .
  with assms(1) show ?thesis unfolding canonical_def by simp
qed

lemma cacheAndReturn_canonical:
  assumes "cacheAndReturn env a M v = (r, a')" "canonical (analysisCache a)" "wd_ok env"
  shows "canonical (analysisCache a')"
  using assms(1)
proof (cases rule: cacheAndReturn_cases)
  case (fail e)
  with assms show ?thesis by simp
next
  case (stored k)
  with assms canonical_upd[of "analysisCache a" env M k v] show ?thesis by simp
qed

lemma canonical_aux:
  assumes "wd_ok env"
  shows "run env a m r a' \<Longrightarrow> canonical (analysisCache a) \<longrightarrow> canonical (analysisCache a')"
    and "loop env a M cs r a' \<Longrightarrow> canonical (analysisCache a) \<longrightarrow> canonical (analysisCache a')"
proof (induction rule: run_loop.inducts)
  case (notexist m k a)
  show ?case
  proof
    assume "canonical (analysisCache a)"
    from canonical_upd[OF this assms notexist(1), of False] show "canonical (analysisCache
       (log (begun a (Clean m)) LevelWarn ''Module directory does not exist'' [S (Clean m)]
          \<lparr>analysisCache := (analysisCache a)(k \<mapsto> False)\<rparr>))" by simp
  qed
next
  case (direrr m k a e a')
  from hdfc_state[OF direrr(3)] show ?case by simp
next
  case (direct m k a a2)
  show ?case
  proof
    assume "canonical (analysisCache a)"
    from canonical_upd[OF this assms direct(1), of True] hdfc_state[OF direct(3)]
    show "canonical (analysisCache
       (log a2 LevelDebug ''Module has direct file changes'' [S (Clean m)]
          \<lparr>analysisCache := (analysisCache a2)(k \<mapsto> True)\<rparr>))" by simp
  qed
next
  case (parseerr m k a a2 e)
  show ?case
  proof
    assume "canonical (analysisCache a)"
    from canonical_upd[OF this assms parseerr(1), of False] hdfc_state[OF parseerr(3)]
    show "canonical (analysisCache
       (log (descending a2 (Clean m)) LevelWarn ''Failed to find child modules''
              [S (Clean m), E e]
          \<lparr>analysisCache := (analysisCache a2)(k \<mapsto> False)\<rparr>))" by simp
  qed
next
  case (children m k a a2 cs r a')
  from hdfc_state[OF children(3)] children(6) show ?case by simp
next
  case (loop_done a M r a')
  show ?case
  proof
    assume "canonical (analysisCache a)"
    then have "canonical (analysisCache (log a LevelDebug ''Module is not updated'' [S M]))"
      by simp
    from cacheAndReturn_canonical[OF loop_done this assms] show "canonical (analysisCache a')" .
  qed
next
  case (loop_true a c a1 M r a' cs)
  show ?case
  proof
    assume "canonical (analysisCache a)"
    with loop_true(2) have "canonical (analysisCache
        (log a1 LevelDebug ''Child module is updated'' [S M, S c]))" by simp
    from cacheAndReturn_canonical[OF loop_true(3) this assms] show "canonical (analysisCache a')" .
  qed
qed simp_all

text \<open>
  Once a verdict for the key \<open>k\<close> is in the cache, no call changes it and no call
  touches the directory again.
\<close>

lemma kept_refl: "kept env k a a"
  by (simp add: kept_def)

lemma kept_trans: "kept env k a b \<Longrightarrow> kept env k b c \<Longrightarrow> kept env k a c"
  by (simp add: kept_def)

lemma kept_log: "kept env k a (log a lv msg at)"
  by (simp add: kept_def)

lemma kept_store: "k' \<noteq> k \<Longrightarrow> kept env k a (a\<lparr>analysisCache := (analysisCache a)(k' \<mapsto> v)\<rparr>)"
  by (simp add: kept_def)

lemma kept_begun: "cacheKey env M \<noteq> Inr k \<Longrightarrow> kept env k a (begun a M)"
  by (simp add: kept_def touches_def)

lemma kept_descending: "cacheKey env M \<noteq> Inr k \<Longrightarrow> kept env k a (descending a M)"
  by (simp add: kept_def touches_def)

lemma kept_hdfc:
  assumes "hasDirectFileChanges env a (Clean m) = (r, a')" "cacheKey env (Clean m) \<noteq> Inr k"
  shows "kept env k a a'"
  using hdfc_state[OF assms(1)] assms(2) by (simp add: kept_def touches_def Clean_idem)

lemma kept_cacheAndReturn:
  assumes "cacheAndReturn env a M v = (r, a')" "cacheKey env M \<noteq> Inr k"
  shows "kept env k a a'"
  using assms(1)
proof (cases rule: cacheAndReturn_cases)
  case (fail e)
  then show ?thesis by (simp add: kept_refl)
next
  case (stored k')
  with assms(2) have "k' \<noteq> k" by auto
  with stored show ?thesis by (simp add: kept_store)
qed

lemma kept_aux:
  "run env a m r a' \<Longrightarrow> analysisCache a k = Some b \<longrightarrow> kept env k a a'"
  "loop env a M cs r a' \<Longrightarrow>
     analysisCache a k = Some b \<longrightarrow> cacheKey env M \<noteq> Inr k \<longrightarrow> kept env k a a'"
proof (induction rule: run_loop.inducts)
  case (keyerr m e a)
  show ?case by (simp add: kept_refl)
next
  case (hit m k' a b')
  show ?case by (simp add: kept_log)
next
  case (notexist m k' a)
  show ?case
  proof
    assume "analysisCache a k = Some b"
    with notexist have ne: "k' \<noteq> k" "cacheKey env (Clean m) \<noteq> Inr k" by auto
    have "kept env k a (log (begun a (Clean m)) LevelWarn ''Module directory does not exist'' [S (Clean m)])"
      using kept_trans[OF kept_begun[OF ne(2)] kept_log] .
    moreover have "kept env k (log (begun a (Clean m)) LevelWarn ''Module directory does not exist'' [S (Clean m)])
      ((log (begun a (Clean m)) LevelWarn ''Module directory does not exist'' [S (Clean m)])
             \<lparr>analysisCache := (analysisCache a)(k' \<mapsto> False)\<rparr>)"
      using kept_store[OF ne(1), of env "log (begun a (Clean m)) LevelWarn ''Module directory does not exist'' [S (Clean m)]" False]
      by simp
    ultimately show "kept env k a
      ((log (begun a (Clean m)) LevelWarn ''Module directory does not exist'' [S (Clean m)])
             \<lparr>analysisCache := (analysisCache a)(k' \<mapsto> False)\<rparr>)"
      by (rule kept_trans)
  qed
next
  case (direrr m k' a e a')
  show ?case
  proof
    assume "analysisCache a k = Some b"
    with direrr have ne: "cacheKey env (Clean m) \<noteq> Inr k" by auto
    from kept_trans[OF kept_begun[OF ne] kept_hdfc[OF direrr(3) ne]] show "kept env k a a'" .
  qed
next
  case (direct m k' a a2)
  show ?case
  proof
    assume "analysisCache a k = Some b"
    with direct have ne: "k' \<noteq> k" "cacheKey env (Clean m) \<noteq> Inr k" by auto
    have 1: "kept env k a a2"
      using kept_trans[OF kept_begun[OF ne(2)] kept_hdfc[OF direct(3) ne(2)]] .
    have 2: "kept env k a2 (log a2 LevelDebug ''Module has direct file changes'' [S (Clean m)])"
      by (rule kept_log)
    have 3: "kept env k (log a2 LevelDebug ''Module has direct file changes'' [S (Clean m)])
       ((log a2 LevelDebug ''Module has direct file changes'' [S (Clean m)])
             \<lparr>analysisCache := (analysisCache a2)(k' \<mapsto> True)\<rparr>)"
      using kept_store[OF ne(1), of env "log a2 LevelDebug ''Module has direct file changes'' [S (Clean m)]" True]
      by simp
    from kept_trans[OF kept_trans[OF 1 2] 3]
    show "kept env k a ((log a2 LevelDebug ''Module has direct file changes'' [S (Clean m)])
             \<lparr>analysisCache := (analysisCache a2)(k' \<mapsto> True)\<rparr>)" .
  qed
next
  case (parseerr m k' a a2 e)
  show ?case
  proof
    assume "analysisCache a k = Some b"
    with parseerr have ne: "k' \<noteq> k" "cacheKey env (Clean m) \<noteq> Inr k" by auto
    let ?a3 = "log (descending a2 (Clean m)) LevelWarn ''Failed to find child modules''
              [S (Clean m), E e]"
    have 1: "kept env k a a2"
      using kept_trans[OF kept_begun[OF ne(2)] kept_hdfc[OF parseerr(3) ne(2)]] .
    have 2: "kept env k a2 ?a3"
      using kept_trans[OF kept_descending[OF ne(2)] kept_log] .
    have 3: "kept env k ?a3 (?a3\<lparr>analysisCache := (analysisCache a2)(k' \<mapsto> False)\<rparr>)"
      using kept_store[OF ne(1), of env ?a3 False] by simp
    from kept_trans[OF kept_trans[OF 1 2] 3]
    show "kept env k a (?a3\<lparr>analysisCache := (analysisCache a2)(k' \<mapsto> False)\<rparr>)" .
  qed
next
  case (children m k' a a2 cs r a')
  show ?case
  proof
    assume kb: "analysisCache a k = Some b"
    with children have ne: "cacheKey env (Clean m) \<noteq> Inr k" by auto
    let ?a3 = "log (descending a2 (Clean m)) LevelDebug ''Found child modules'' [S (Clean m), L cs]"
    have 1: "kept env k a a2"
      using kept_trans[OF kept_begun[OF ne] kept_hdfc[OF children(3) ne]] .
    have 2: "kept env k a2 ?a3"
      using kept_trans[OF kept_descending[OF ne] kept_log] .
    from kept_trans[OF 1 2] have 12: "kept env k a ?a3" .
    with kb have "analysisCache ?a3 k = Some b" by (simp add: kept_def)
    with children(6) ne have "kept env k ?a3 a'" by blast
    with 12 show "kept env k a a'" by (rule kept_trans)
  qed
next
  case (loop_done a M r a')
  show ?case
  proof (intro impI)
    assume "cacheKey env M \<noteq> Inr k"
    from kept_trans[OF kept_log kept_cacheAndReturn[OF loop_done this]] show "kept env k a a'" .
  qed
next
  case (loop_err a c e a1 M cs)
  then show ?case by simp
next
  case (loop_true a c a1 M r a' cs)
  show ?case
  proof (intro impI)
    assume kb: "analysisCache a k = Some b" and ne: "cacheKey env M \<noteq> Inr k"
    with loop_true(2) have 1: "kept env k a a1" by simp
    from kept_trans[OF 1 kept_trans[OF kept_log kept_cacheAndReturn[OF loop_true(3) ne]]]
    show "kept env k a a'" .
  qed
next
  case (loop_false a c a1 M cs r a')
  show ?case
  proof (intro impI)
    assume kb: "analysisCache a k = Some b" and ne: "cacheKey env M \<noteq> Inr k"
    with loop_false(2) have 1: "kept env k a a1" by simp
    with kb have "analysisCache a1 k = Some b" by (simp add: kept_def)
    with loop_false(4) ne have "kept env k a1 a'" by simp
    with 1 show "kept env k a a'" by (rule kept_trans)
  qed
qed

lemma run_kept: "run env a m r a' \<Longrightarrow> analysisCache a k = Some b \<Longrightarrow> kept env k a a'"
  using kept_aux(1) by blast

lemma returned: "map_option fst x = Some r \<Longrightarrow> x = Some (r, snd (the x))"
  by (cases x) auto

lemma cacheKey_Abs:
  assumes "wd_ok env"
  shows "cacheKey env (Clean m) = Abs env (Clean m)"
proof (cases "IsAbs (Clean m)")
  case True
  then show ?thesis by (simp add: cacheKey_def Abs_def Clean_idem)
next
  case False
  show ?thesis
  proof (cases "Getwd env")
    case (Inl e)
    with False show ?thesis by (simp add: cacheKey_def Abs_def)
  next
    case (Inr d)
    with assms have "d \<noteq> []" by (auto simp: wd_ok_def IsAbs_def)
    then have "Clean (Join d (Clean m)) = Join d (Clean m)" by (rule Clean_Join)
    with False Inr show ?thesis by (simp add: cacheKey_def Abs_def)
  qed
qed

lemma populated_fresh: "populated env a0 a \<Longrightarrow> populated env a0 a0"
  by (induction rule: populated.induct) (auto intro: populated.fresh)

lemma sound_key:
  assumes "sound env cf c" "c k = Some v"
  shows "cacheKey env (Clean k) = Inr k" "Clean k = k" "IsAbs k"
  using assms cacheKey_abs[of k env] unfolding sound_def by (auto simp: Clean_idem)

lemma calls_grow:
  "run env a m r a' \<Longrightarrow> \<exists>rest. calls a' = calls a @ rest"
  "loop env a M cs r a' \<Longrightarrow> \<exists>rest. calls a' = calls a @ rest"
proof (induction rule: run_loop.inducts)
  case (direrr m k a e a')
  from hdfc_state[OF direrr(3)] show ?case by simp
next
  case (direct m k a a2)
  from hdfc_state[OF direct(3)] show ?case by simp
next
  case (parseerr m k a a2 e)
  from hdfc_state[OF parseerr(3)] show ?case by simp
next
  case (children m k a a2 cs r a')
  from hdfc_state[OF children(3)] children(6) show ?case by auto
next
  case (loop_done a M r a')
  then show ?case by (cases rule: cacheAndReturn_cases) simp_all
next
  case (loop_true a c a1 M r a' cs)
  from loop_true(3) loop_true(2) show ?case by (cases rule: cacheAndReturn_cases) auto
next
  case (loop_false a c a1 M cs r a')
  then show ?case by auto
qed simp_all

lemma miss_calls:
  assumes "IsModuleUpdated n env a m = Some (r, a')" "cacheKey env (Clean m) = Inr k"
    "analysisCache a k = None"
  shows "\<exists>rest. calls a' = calls a @ CallStat (Clean m) # rest"
proof (cases n)
  case 0
  with assms(1) show ?thesis by simp
next
  case (Suc n')
  with assms(1) have "IsModuleUpdated (Suc n') env a m = Some (r, a')" by simp
  then show ?thesis
  proof (cases rule: IMU_cases)
    case (keyerr e)
    with assms(2) show ?thesis by simp
  next
    case (hit k b)
    with assms(2,3) show ?thesis by simp
  next
    case (notexist k)
    then show ?thesis by simp
  next
    case (direrr k e)
    from hdfc_state[OF direrr(4)] show ?thesis by simp
  next
    case (direct k a2)
    from hdfc_state[OF direct(4)] direct(6) show ?thesis by simp
  next
    case (parseerr k a2 e)
    from hdfc_state[OF parseerr(4)] parseerr(7) show ?thesis by simp
  next
    case (children k a2 cs)
    let ?a3 = "log (descending a2 (Clean m)) LevelDebug ''Found child modules'' [S (Clean m), L cs]"
    have "loop env ?a3 (Clean m) cs r a'"
      by (rule childLoop_loop[of "IsModuleUpdated n' env", OF IMU_run children(6)])
    from calls_grow(2)[OF this] obtain rest where "calls a' = calls ?a3 @ rest" ..
    with hdfc_state[OF children(4)] show ?thesis by simp
  qed
qed

subsection \<open>Facts about the example tree\<close>

lemma ex_wd_ok: "wd_ok env_ex"
  by code_simp

lemma ex_canonical: "canonical (analysisCache analyzer_ex)"
  by (simp add: canonical_def analyzer_ex_def)

lemma ex_dev: "map_option fst (IsModuleUpdated 5 env_ex analyzer_ex ''/r/env/dev'') = Some (Inr True)"
  by code_simp

lemma ex_dev_key: "cacheKey env_ex (Clean ''/r/env/dev'') = Inr ''/r/env/dev''"
  by code_simp

lemma ex_bad_hyps:
  "cacheKey env_ex (Clean ''/r/mod/bad'') = Inr ''/r/mod/bad''"
  "analysisCache analyzer_ex ''/r/mod/bad'' = None"
  "Stat env_ex (Clean ''/r/mod/bad'') \<noteq> NotExist"
  "fst (hasDirectFileChanges env_ex analyzer_ex (Clean ''/r/mod/bad'')) = Inr False"
  "FindChildModules env_ex (Clean ''/r/mod/bad'') =
     Inl (Wrapf ''failed to parse %s: %w'' [''/r/mod/bad/main.tf'']
            (OsError ''failed to parse HCL file''))"
  by code_simp+

lemma ex_locked_hyps:
  "cacheKey env_ex (Clean ''/r/mod/locked'') = Inr ''/r/mod/locked''"
  "analysisCache analyzer_ex ''/r/mod/locked'' = None"
  "Stat env_ex (Clean ''/r/mod/locked'') \<noteq> NotExist"
  "ReadDir env_ex (Clean ''/r/mod/locked'') = Inl (OsError ''permission denied'')"
  by code_simp+

section \<open>The cache holds the verdicts\<close>

declare verdict.simps(2) [simp del]

lemma directChange_eq:
  "changedFiles a = cf \<Longrightarrow> fst (hasDirectFileChanges env a m) = directChange env cf m"
  unfolding directChange_def by (rule hdfc_value) simp

lemma verdict_keyerr:
  "cacheKey env (Clean m) = Inl e \<Longrightarrow> verdict (Suc n) env cf m = Some (Inl e)"
  by (simp add: verdict.simps(2))

lemma verdict_step:
  "cacheKey env (Clean m) = Inr k \<Longrightarrow>
   verdict (Suc n) env cf m =
     (if Stat env (Clean m) = NotExist then Some (Inr False)
      else (case directChange env cf (Clean m) of
        Inl e \<Rightarrow> Some (Inl (Wrapf ''failed to check direct changes in %s: %w'' [Clean m] e))
      | Inr True \<Rightarrow> Some (Inr True)
      | Inr False \<Rightarrow>
          (case FindChildModules env (Clean m) of
             Inl e \<Rightarrow> Some (Inr False)
           | Inr cs \<Rightarrow> verdictLoop (verdict n env cf) cs)))"
  by (simp add: verdict.simps(2) Let_def split: sum.splits bool.splits)

lemma verdict_Clean: "verdict n env cf (Clean m) = verdict n env cf m"
  by (cases n) (simp_all add: verdict.simps(2) Clean_idem)

lemma verdictLoop_mono:
  assumes "\<And>c x. rec c = Some x \<Longrightarrow> rec' c = Some x"
  shows "verdictLoop rec cs = Some r \<Longrightarrow> verdictLoop rec' cs = Some r"
proof (induction cs)
  case Nil
  then show ?case by simp
next
  case (Cons c cs)
  from Cons.prems obtain x where x: "rec c = Some x" by (cases "rec c") auto
  then have x': "rec' c = Some x" by (rule assms)
  show ?case
  proof (cases x)
    case (Inl e)
    with Cons.prems x x' show ?thesis by simp
  next
    case (Inr b)
    show ?thesis
    proof (cases b)
      case True
      from x Inr True have "rec c = Some (Inr True)" by simp
      with Cons.prems have "r = Inr True" by simp
      moreover from x' Inr True have "rec' c = Some (Inr True)" by simp
      ultimately show ?thesis by simp
    next
      case False
      with Inr Cons.prems x have "verdictLoop rec cs = Some r" by simp
      then have "verdictLoop rec' cs = Some r" by (rule Cons.IH)
      with False Inr x' show ?thesis by simp
    qed
  qed
qed

lemma verdict_Suc: "verdict n env cf m = Some r \<Longrightarrow> verdict (Suc n) env cf m = Some r"
proof (induction n arbitrary: m r)
  case 0
  then show ?case by simp
next
  case (Suc n)
  show ?case
  proof (cases "cacheKey env (Clean m)")
    case (Inl e)
    with Suc.prems show ?thesis by (simp add: verdict_keyerr)
  next
    case (Inr k)
    note st = verdict_step[OF Inr]
    show ?thesis
    proof (cases "Stat env (Clean m) \<noteq> NotExist \<and> directChange env cf (Clean m) = Inr False
                  \<and> (\<exists>cs. FindChildModules env (Clean m) = Inr cs)")
      case True
      then obtain cs where cs: "FindChildModules env (Clean m) = Inr cs" by blast
      with True Suc.prems have "verdictLoop (verdict n env cf) cs = Some r" by (simp add: st)
      then have "verdictLoop (verdict (Suc n) env cf) cs = Some r"
        by (rule verdictLoop_mono[rotated]) (rule Suc.IH)
      with True cs show ?thesis by (simp add: st)
    next
      case False
      with Suc.prems show ?thesis
        by (auto simp: st split: if_splits sum.splits bool.splits)
    qed
  qed
qed

lemma verdict_mono:
  assumes "verdict n env cf m = Some r" "n \<le> n'"
  shows "verdict n' env cf m = Some r"
  using assms(2,1) by (induction rule: dec_induct) (simp_all add: verdict_Suc)

lemma verdict_det:
  assumes "verdict n env cf m = Some r" "verdict n' env cf m = Some r'"
  shows "r = r'"
proof -
  have "verdict (max n n') env cf m = Some r" by (rule verdict_mono[OF assms(1)]) simp
  moreover have "verdict (max n n') env cf m = Some r'" by (rule verdict_mono[OF assms(2)]) simp
  ultimately show ?thesis by simp
qed

lemma verdictLoop_max:
  assumes "verdictLoop (verdict n env cf) cs = Some r" "n \<le> n'"
  shows "verdictLoop (verdict n' env cf) cs = Some r"
  using assms(1)
proof (rule verdictLoop_mono[rotated])
  fix c x assume "verdict n env cf c = Some x"
  then show "verdict n' env cf c = Some x" using assms(2) by (rule verdict_mono)
qed

section \<open>Relative paths\<close>

text \<open>
  In a coherent environment the analysis of a relative path and the analysis of its
  join to the working directory go the same way: the same verdict, or an error in both.
\<close>

lemma Abs_of_abs: "IsAbs p \<Longrightarrow> Abs env p = Inr (Clean p)"
  by (simp add: Abs_def)

lemma Abs_of_rel: "\<not> IsAbs p \<Longrightarrow> Getwd env = Inr d \<Longrightarrow> Abs env p = Inr (Join d p)"
  by (simp add: Abs_def)

lemma coherentD:
  assumes "coherent env" "Getwd env = Inr d" "\<not> IsAbs p" "Clean p = p"
  shows "IsAbs d" "Stat env p = Stat env (Join d p)"
    "rel_sum (\<lambda>e e'. True) (=) (ReadDir env p) (ReadDir env (Join d p))"
    "rel_sum (\<lambda>e e'. True) (=) (extractModuleSources env p) (extractModuleSources env (Join d p))"
  using assms unfolding coherent_def by auto

lemma coherent_wd: "coherent env \<Longrightarrow> \<exists>d. Getwd env = Inr d \<and> IsAbs d"
  unfolding coherent_def by blast

lemma Join_rel: "\<not> IsAbs M \<Longrightarrow> M \<noteq> [] \<Longrightarrow> \<not> IsAbs (Join M s) \<and> Clean (Join M s) = Join M s"
  by (simp add: Join_def IsAbs_Clean IsAbs_append Clean_idem)

lemma hdfc_loop_char:
  assumes "\<And>n. \<exists>q. Abs env (Clean (Join M n)) = Inr q"
  shows "fst (hasDirectFileChanges_loop env a M es) =
     Inr (\<exists>e\<in>set es. \<not> IsDir e
            \<and> (\<exists>p. Abs env (Clean (Join M (Name e))) = Inr p \<and> p \<in> changedFiles a))"
proof (induction es)
  case Nil
  then show ?case by simp
next
  case (Cons e es)
  from assms obtain q where ab: "Abs env (Clean (Join M (Name e))) = Inr q" by blast
  show ?case
  proof (cases "IsDir e")
    case True
    with Cons show ?thesis by simp
  next
    case False
    show ?thesis
    proof (cases "q \<in> changedFiles a")
      case True
      with False ab show ?thesis by (auto simp: Let_def)
    next
      case nin: False
      with False ab Cons show ?thesis by (auto simp: Let_def)
    qed
  qed
qed

lemma directChange_char:
  assumes "\<And>n. \<exists>q. Abs env (Clean (Join M n)) = Inr q" "Clean M = M"
  shows "directChange env cf M =
     (case ReadDir env M of
        Inl e \<Rightarrow> Inl (Wrapf ''failed to read directory %s: %w'' [M] e)
      | Inr entries \<Rightarrow>
          Inr (\<exists>e\<in>set entries. \<not> IsDir e
                 \<and> (\<exists>p. Abs env (Clean (Join M (Name e))) = Inr p \<and> p \<in> cf)))"
proof (cases "ReadDir env M")
  case (Inl e)
  then show ?thesis by (simp add: directChange_def hasDirectFileChanges_def assms(2))
next
  case (Inr es)
  let ?a = "called \<lparr>changedFiles = cf, analysisCache = Map.empty, logger = [], calls = []\<rparr>
              (CallReadDir M)"
  have "directChange env cf M = fst (hasDirectFileChanges_loop env ?a M es)"
    using Inr by (simp add: directChange_def hasDirectFileChanges_def assms(2))
  with hdfc_loop_char[of env M ?a es, OF assms(1)] Inr show ?thesis by simp
qed


lemma Abs_total:
  assumes "Getwd env = Inr d"
  shows "\<exists>q. Abs env p = Inr q"
  using assms by (cases "IsAbs p") (simp_all add: Abs_def)

lemma directChange_rel:
  assumes "coherent env" "Getwd env = Inr d" "\<not> IsAbs M" "Clean M = M"
  shows "rel_sum (\<lambda>e e'. True) (=) (directChange env cf M) (directChange env cf (Join d M))"
proof -
  note co = coherentD[OF assms]
  from assms(4) have ne: "M \<noteq> []" using Clean_nonempty[of M] by simp
  have dne: "d \<noteq> []" using co(1) by (rule IsAbs_nonempty)
  have clK: "Clean (Join d M) = Join d M" using dne by (rule Clean_Join)
  have absK: "IsAbs (Join d M)" using co(1) by (rule IsAbs_Join)
  have tot: "\<And>M n. \<exists>q. Abs env (Clean (Join M n)) = Inr q" using Abs_total[OF assms(2)] .
  have fa: "Abs env (Clean (Join (Join d M) n)) = Abs env (Clean (Join M n))" for n
  proof -
    from Join_rel[OF assms(3) ne, of n]
    have "Abs env (Clean (Join M n)) = Inr (Join d (Join M n))"
      using assms(2) by (simp add: Abs_of_rel)
    moreover have "IsAbs (Join (Join d M) n)" using absK by (rule IsAbs_Join)
    then have "Abs env (Clean (Join (Join d M) n)) = Inr (Join (Join d M) n)"
      using absK by (simp add: Abs_of_abs IsAbs_Clean Clean_Join IsAbs_nonempty Clean_idem)
    ultimately show ?thesis using Join_assoc[OF co(1) assms(3) ne, of n] by simp
  qed
  show ?thesis
    using co(3) by (cases "ReadDir env M"; cases "ReadDir env (Join d M)")
      (simp_all add: directChange_char[OF tot assms(4)] directChange_char[OF tot clK] fa)
qed

lemma childModules_spec_rel:
  assumes "coherent env" "Getwd env = Inr d" "\<not> IsAbs M" "Clean M = M"
  shows "(\<forall>f\<in>set (declarationFiles (Join d M) entries). parses env f)
           = (\<forall>f\<in>set (declarationFiles M entries). parses env f)"
    "childModules_spec env (Join d M) entries = map (Join d) (childModules_spec env M entries)"
proof -
  note co = coherentD[OF assms(1,2)]
  from assms(4) have ne: "M \<noteq> []" using Clean_nonempty[of M] by simp
  have ad: "IsAbs d" using coherentD(1)[OF assms] .
  have dne: "d \<noteq> []" using ad by (rule IsAbs_nonempty)
  note as = Join_assoc[OF ad assms(3) ne]
  have ex: "rel_sum (\<lambda>e e'. True) (=) (extractModuleSources env (Join M n))
       (extractModuleSources env (Join (Join d M) n))" for n
    using co(4)[of "Join M n"] Join_rel[OF assms(3) ne, of n] as[of n] by simp
  have p: "parses env (Join (Join d M) n) = parses env (Join M n)" for n
    using ex[of n]
    by (cases "extractModuleSources env (Join M n)";
        cases "extractModuleSources env (Join (Join d M) n)") (simp_all add: parses_def)
  show "(\<forall>f\<in>set (declarationFiles (Join d M) entries). parses env f)
           = (\<forall>f\<in>set (declarationFiles M entries). parses env f)"
    by (simp add: declarationFiles_def p)
  have src: "(case extractModuleSources env (Join (Join d M) n) of Inl e \<Rightarrow> [] | Inr ss \<Rightarrow> ss)
      = (case extractModuleSources env (Join M n) of Inl e \<Rightarrow> [] | Inr ss \<Rightarrow> ss)" for n
    using ex[of n]
    by (cases "extractModuleSources env (Join M n)";
        cases "extractModuleSources env (Join (Join d M) n)") simp_all
  have ds: "declaredSources env (declarationFiles (Join d M) entries)
      = declaredSources env (declarationFiles M entries)"
    by (simp add: declaredSources_def declarationFiles_def comp_def src)
  have ls: "localSource env (Join d M) s = localSource env M s" for s
    using co(2)[of "Join M s"] Join_rel[OF assms(3) ne, of s] as[of s]
    by (simp add: localSource_def)
  have cl: "Clean (Join (Join d M) s) = Join d (Clean (Join M s))" for s
    using Join_rel[OF assms(3) ne, of s] as[of s] IsAbs_Join[OF ad, of M]
    by (simp add: Clean_Join IsAbs_nonempty)
  show "childModules_spec env (Join d M) entries = map (Join d) (childModules_spec env M entries)"
    by (simp add: childModules_spec_def ds ls cl comp_def cong: filter_cong)
qed

lemma FindChildModules_rel:
  assumes "coherent env" "Getwd env = Inr d" "\<not> IsAbs M" "Clean M = M"
  shows "rel_sum (\<lambda>e e'. True) (\<lambda>cs cs'. cs' = map (Join d) cs)
           (FindChildModules env M) (FindChildModules env (Join d M))"
proof -
  note rd = coherentD(3)[OF assms]
  note cm = childModules_spec_rel[OF assms]
  show ?thesis
  proof (cases "FindChildModules env M")
    case (Inl e)
    show ?thesis
    proof (cases "FindChildModules env (Join d M)")
      case l: (Inl e')
      with Inl show ?thesis by simp
    next
      case (Inr cs')
      then obtain entries where e: "ReadDir env (Join d M) = Inr entries"
        "\<forall>f\<in>set (declarationFiles (Join d M) entries). parses env f"
        using FindChildModules_char by blast
      from e(1) rd have "ReadDir env M = Inr entries" by (cases "ReadDir env M") simp_all
      moreover from e(2) have "\<forall>f\<in>set (declarationFiles M entries). parses env f"
        by (simp add: cm(1))
      ultimately have "FindChildModules env M = Inr (childModules_spec env M entries)"
        using FindChildModules_char by blast
      with Inl show ?thesis by simp
    qed
  next
    case (Inr cs)
    then obtain entries where e: "ReadDir env M = Inr entries"
      "\<forall>f\<in>set (declarationFiles M entries). parses env f"
      "cs = childModules_spec env M entries"
      using FindChildModules_char by blast
    from e(1) rd have "ReadDir env (Join d M) = Inr entries"
      by (cases "ReadDir env (Join d M)") simp_all
    moreover from e(2) have "\<forall>f\<in>set (declarationFiles (Join d M) entries). parses env f"
      by (simp add: cm(1))
    ultimately have "FindChildModules env (Join d M)
        = Inr (childModules_spec env (Join d M) entries)"
      using FindChildModules_char by blast
    with Inr e(3) show ?thesis by (simp add: cm(2))
  qed
qed

lemma children_rel:
  assumes "FindChildModules env M = Inr cs" "\<not> IsAbs M" "M \<noteq> []" "c \<in> set cs"
  shows "\<not> IsAbs c"
proof -
  from assms(1) obtain entries where "cs = childModules_spec env M entries"
    using FindChildModules_char by blast
  with assms(4) obtain s where "c = Clean (Join M s)" by (auto simp: childModules_spec_def)
  with Join_rel[OF assms(2,3), of s] show ?thesis by simp
qed

lemma verdictLoop_rel:
  assumes "\<And>c. c \<in> set cs \<Longrightarrow>
      rel_option (rel_sum (\<lambda>e e'. True) (=)) (rec c) (rec' (f c))"
  shows "rel_option (rel_sum (\<lambda>e e'. True) (=))
           (verdictLoop rec cs) (verdictLoop rec' (map f cs))"
  using assms
proof (induction cs)
  case Nil
  then show ?case by simp
next
  case (Cons c cs)
  have ih: "rel_option (rel_sum (\<lambda>e e'. True) (=))
           (verdictLoop rec cs) (verdictLoop rec' (map f cs))"
    by (rule Cons.IH) (simp add: Cons.prems)
  have hd: "rel_option (rel_sum (\<lambda>e e'. True) (=)) (rec c) (rec' (f c))"
    by (rule Cons.prems) simp
  show ?case
  proof (cases "rec c")
    case None
    with hd show ?thesis by (cases "rec' (f c)") simp_all
  next
    case (Some x)
    with hd obtain y where y: "rec' (f c) = Some y" "rel_sum (\<lambda>e e'. True) (=) x y"
      by (cases "rec' (f c)") simp_all
    show ?thesis
    proof (cases x)
      case (Inl e)
      with y(2) obtain e' where "y = Inl e'" by (cases y) simp_all
      with Inl Some y(1) show ?thesis by simp
    next
      case (Inr b)
      with y(2) have "y = Inr b" by (cases y) simp_all
      with Inr Some y(1) ih show ?thesis by simp
    qed
  qed
qed

lemma cacheKey_rel:
  assumes "Getwd env = Inr d" "IsAbs d" "\<not> IsAbs m"
  shows "cacheKey env (Clean m) = Inr (Join d m)"
proof -
  have "\<not> IsAbs (Clean m)" using assms(3) by (simp add: IsAbs_Clean)
  then have "cacheKey env (Clean m) = Inr (Clean (Join d (Clean m)))"
    using assms(1) by (simp add: cacheKey_def Abs_def)
  then show ?thesis
    using Join_Clean_rel[OF assms(2,3)] Clean_Join[OF IsAbs_nonempty[OF assms(2)], of m] by simp
qed

lemma verdict_rel:
  assumes "coherent env" "Getwd env = Inr d" "\<not> IsAbs m"
  shows "rel_option (rel_sum (\<lambda>e e'. True) (=))
           (verdict n env cf m) (verdict n env cf (Join d m))"
  using assms(3)
proof (induction n arbitrary: m)
  case 0
  then show ?case by simp
next
  case (Suc n)
  let ?M = "Clean m"
  let ?K = "Join d m"
  from assms(1,2) have ad: "IsAbs d" unfolding coherent_def by auto
  have rel: "\<not> IsAbs ?M" and cl: "Clean ?M = ?M" and ne: "?M \<noteq> []"
    using Suc.prems by (simp_all add: IsAbs_Clean Clean_idem Clean_nonempty)
  have K: "Join d ?M = ?K" using Join_Clean_rel[OF ad Suc.prems] .
  have absK: "IsAbs ?K" using ad by (rule IsAbs_Join)
  have clK: "Clean ?K = ?K" using ad by (simp add: Clean_Join IsAbs_nonempty)
  note v1 = verdict_step[OF cacheKey_rel[OF assms(2) ad Suc.prems], of n cf]
  have "cacheKey env (Clean ?K) = Inr ?K" using absK clK by (simp add: cacheKey_abs)
  note v2 = verdict_step[OF this, of n cf, unfolded clK]
  note co = coherentD[OF assms(1,2) rel cl, unfolded K]
  note dc = directChange_rel[OF assms(1,2) rel cl, of cf, unfolded K]
  note fc = FindChildModules_rel[OF assms(1,2) rel cl, unfolded K]
  show ?case
  proof (cases "Stat env ?M = NotExist")
    case True
    with co(2) show ?thesis by (simp add: v1 v2)
  next
    case ex: False
    with co(2) have exK: "Stat env ?K \<noteq> NotExist" by simp
    show ?thesis
    proof (cases "directChange env cf ?M")
      case (Inl e)
      with dc obtain e' where "directChange env cf ?K = Inl e'"
        by (cases "directChange env cf ?K") simp_all
      with Inl ex exK show ?thesis by (simp add: v1 v2)
    next
      case (Inr b)
      with dc have dK: "directChange env cf ?K = Inr b"
        by (cases "directChange env cf ?K") simp_all
      show ?thesis
      proof (cases b)
        case True
        with Inr dK ex exK show ?thesis by (simp add: v1 v2)
      next
        case False
        show ?thesis
        proof (cases "FindChildModules env ?M")
          case (Inl e)
          with fc obtain e' where "FindChildModules env ?K = Inl e'"
            by (cases "FindChildModules env ?K") simp_all
          with Inl False Inr dK ex exK show ?thesis by (simp add: v1 v2)
        next
          case cs: (Inr cs)
          with fc have csK: "FindChildModules env ?K = Inr (map (Join d) cs)"
            by (cases "FindChildModules env ?K") simp_all
          have "rel_option (rel_sum (\<lambda>e e'. True) (=))
              (verdictLoop (verdict n env cf) cs)
              (verdictLoop (verdict n env cf) (map (Join d) cs))"
          proof (rule verdictLoop_rel)
            fix c assume "c \<in> set cs"
            with cs rel ne have "\<not> IsAbs c" by (rule children_rel)
            then show "rel_option (rel_sum (\<lambda>e e'. True) (=))
                (verdict n env cf c) (verdict n env cf (Join d c))" by (rule Suc.IH)
          qed
          with cs csK False Inr dK ex exK show ?thesis by (simp add: v1 v2)
        qed
      qed
    qed
  qed
qed

lemma resolved_abs: "IsAbs m \<Longrightarrow> resolved env m"
  by (simp add: resolved_def)

lemma resolved_Clean: "resolved env (Clean m) = resolved env m"
  by (simp add: resolved_def IsAbs_Clean)

lemma resolved_key: "resolved env m \<Longrightarrow> \<exists>k. cacheKey env (Clean m) = Inr k"
proof (cases "IsAbs m")
  case True
  then show ?thesis by (simp add: cacheKey_abs IsAbs_Clean)
next
  case False
  assume "resolved env m"
  with False have "coherent env" by (simp add: resolved_def)
  then obtain d where "Getwd env = Inr d" "IsAbs d" using coherent_wd by blast
  from cacheKey_rel[OF this False] show ?thesis by blast
qed

text \<open>
  The key of a resolved path is an absolute cleaned path, and it has the verdict of the
  path.
\<close>

lemma key_verdict:
  assumes "resolved env m" "cacheKey env (Clean m) = Inr k"
  shows "IsAbs k" "Clean k = k" "cacheKey env (Clean k) = Inr k"
    "verdict n env cf k = Some (Inr b) \<longleftrightarrow> verdict n env cf m = Some (Inr b)"
proof -
  have "IsAbs k \<and> Clean k = k
      \<and> (verdict n env cf k = Some (Inr b) \<longleftrightarrow> verdict n env cf m = Some (Inr b))"
  proof (cases "IsAbs m")
    case True
    with assms(2) have "k = Clean m" by (simp add: cacheKey_abs IsAbs_Clean Clean_idem)
    with True show ?thesis by (simp add: IsAbs_Clean Clean_idem verdict_Clean)
  next
    case False
    with assms(1) have co: "coherent env" by (simp add: resolved_def)
    then obtain d where d: "Getwd env = Inr d" "IsAbs d" using coherent_wd by blast
    from cacheKey_rel[OF d False] assms(2) have k: "k = Join d m" by simp
    have "rel_option (rel_sum (\<lambda>e e'. True) (=)) (verdict n env cf m) (verdict n env cf k)"
      unfolding k using co d(1) False by (rule verdict_rel)
    then have "verdict n env cf k = Some (Inr b) \<longleftrightarrow> verdict n env cf m = Some (Inr b)"
      by (cases "verdict n env cf m"; cases "verdict n env cf k")
         (auto elim: rel_sum.cases)
    with k d(2) show ?thesis by (simp add: IsAbs_Join Clean_Join IsAbs_nonempty)
  qed
  then show "IsAbs k" "Clean k = k"
    "verdict n env cf k = Some (Inr b) \<longleftrightarrow> verdict n env cf m = Some (Inr b)" by simp_all
  then show "cacheKey env (Clean k) = Inr k" by (simp add: cacheKey_abs)
qed

lemma FindChildModules_abs:
  assumes "FindChildModules env M = Inr cs" "IsAbs M" "c \<in> set cs"
  shows "IsAbs c"
proof -
  from assms(1) obtain entries where "cs = childModules_spec env M entries"
    using FindChildModules_char by blast
  with assms(3) obtain s where "c = Clean (Join M s)" by (auto simp: childModules_spec_def)
  with assms(2) show ?thesis by (simp add: IsAbs_Clean IsAbs_Join)
qed

lemma children_resolved:
  assumes "resolved env M" "FindChildModules env (Clean M) = Inr cs" "c \<in> set cs"
  shows "resolved env c"
proof (cases "IsAbs M")
  case True
  then have "IsAbs (Clean M)" by (simp add: IsAbs_Clean)
  from FindChildModules_abs[OF assms(2) this assms(3)] show ?thesis by (rule resolved_abs)
next
  case False
  with assms(1) show ?thesis by (simp add: resolved_def)
qed


section \<open>Soundness of the cache\<close>

lemma sound_upd:
  assumes "sound env cf c" "IsAbs k" "Clean k = k" "verdict n env cf k = Some (Inr b)"
  shows "sound env cf (c(k \<mapsto> b))"
  using assms unfolding sound_def by auto

lemma sound_store:
  assumes "sound env cf c" "resolved env m" "cacheKey env (Clean m) = Inr k"
    "verdict n env cf m = Some (Inr b)"
  shows "sound env cf (c(k \<mapsto> b))"
proof -
  note kv = key_verdict[OF assms(2,3)]
  from assms(4) have "verdict n env cf k = Some (Inr b)" by (simp add: kv(4))
  from sound_upd[OF assms(1) kv(1,2) this] show ?thesis .
qed

lemma sound_lookup:
  assumes "sound env cf c" "resolved env m" "cacheKey env (Clean m) = Inr k" "c k = Some b"
  shows "\<exists>n. verdict n env cf m = Some (Inr b)"
proof -
  from assms(1,4) obtain n where "verdict n env cf k = Some (Inr b)" unfolding sound_def by blast
  then have "verdict n env cf m = Some (Inr b)" by (simp add: key_verdict(4)[OF assms(2,3)])
  then show ?thesis ..
qed

text \<open>
  A call that returns from a sound cache returns the verdict, and leaves a sound cache.
\<close>

lemma sound_run:
  "run env a m r a' \<Longrightarrow>
     sound env cf (analysisCache a) \<longrightarrow> changedFiles a = cf \<longrightarrow> resolved env m \<longrightarrow>
       (\<exists>n. verdict n env cf m = Some r) \<and> sound env cf (analysisCache a')
       \<and> changedFiles a' = cf"
  "loop env a M cs r a' \<Longrightarrow>
     sound env cf (analysisCache a) \<longrightarrow> changedFiles a = cf \<longrightarrow> resolved env M \<longrightarrow> Clean M = M \<longrightarrow>
     (\<forall>c\<in>set cs. resolved env c) \<longrightarrow>
       (\<exists>n. verdictLoop (verdict n env cf) cs = Some r) \<and> changedFiles a' = cf
       \<and> (case r of Inl e \<Rightarrow> sound env cf (analysisCache a')
           | Inr v \<Rightarrow> \<exists>c0 k. sound env cf c0 \<and> cacheKey env M = Inr k
                      \<and> analysisCache a' = c0(k \<mapsto> v))"
proof (induction rule: run_loop.inducts)
  case (keyerr m e a)
  show ?case
  proof (intro impI)
    assume "sound env cf (analysisCache a)" "changedFiles a = cf" "resolved env m"
    moreover have "verdict (Suc 0) env cf m = Some (Inl e)" using keyerr by (rule verdict_keyerr)
    ultimately show "(\<exists>n. verdict n env cf m = Some (Inl e)) \<and> sound env cf (analysisCache a)
       \<and> changedFiles a = cf" by blast
  qed
next
  case (hit m k a b)
  show ?case
  proof (intro impI)
    assume s: "sound env cf (analysisCache a)" and cf: "changedFiles a = cf"
      and ab: "resolved env m"
    from sound_lookup[OF s ab hit(1,2)] obtain n where "verdict n env cf m = Some (Inr b)" ..
    with s cf show "(\<exists>n. verdict n env cf m = Some (Inr b))
       \<and> sound env cf (analysisCache (log a LevelDebug ''Cache hit'' [S (Clean m), B b]))
       \<and> changedFiles (log a LevelDebug ''Cache hit'' [S (Clean m), B b]) = cf"
      by auto
  qed
next
  case (notexist m k a)
  show ?case
  proof (intro impI)
    assume s: "sound env cf (analysisCache a)" and cf: "changedFiles a = cf"
      and ab: "resolved env m"
    have v: "verdict (Suc 0) env cf m = Some (Inr False)"
      using notexist by (simp add: verdict_step)
    have "sound env cf ((analysisCache a)(k \<mapsto> False))"
      using s ab notexist(1) v by (rule sound_store)
    with v cf show "(\<exists>n. verdict n env cf m = Some (Inr False))
       \<and> sound env cf (analysisCache
            (log (begun a (Clean m)) LevelWarn ''Module directory does not exist'' [S (Clean m)]
             \<lparr>analysisCache := (analysisCache a)(k \<mapsto> False)\<rparr>))
       \<and> changedFiles
            (log (begun a (Clean m)) LevelWarn ''Module directory does not exist'' [S (Clean m)]
             \<lparr>analysisCache := (analysisCache a)(k \<mapsto> False)\<rparr>) = cf"
      by auto
  qed
next
  case (direrr m k a e a')
  show ?case
  proof (intro impI)
    assume s: "sound env cf (analysisCache a)" and cf: "changedFiles a = cf"
      and ab: "resolved env m"
    have "directChange env cf (Clean m) = Inl e"
      using directChange_eq[of "begun a (Clean m)" cf env "Clean m"] direrr(3) cf by simp
    then have "verdict (Suc 0) env cf m =
        Some (Inl (Wrapf ''failed to check direct changes in %s: %w'' [Clean m] e))"
      using direrr by (simp add: verdict_step)
    moreover from hdfc_state[OF direrr(3)] s cf
    have "sound env cf (analysisCache a')" "changedFiles a' = cf" by simp_all
    ultimately show "(\<exists>n. verdict n env cf m =
          Some (Inl (Wrapf ''failed to check direct changes in %s: %w'' [Clean m] e)))
       \<and> sound env cf (analysisCache a') \<and> changedFiles a' = cf" by blast
  qed
next
  case (direct m k a a2)
  show ?case
  proof (intro impI)
    assume s: "sound env cf (analysisCache a)" and cf: "changedFiles a = cf"
      and ab: "resolved env m"
    have "directChange env cf (Clean m) = Inr True"
      using directChange_eq[of "begun a (Clean m)" cf env "Clean m"] direct(3) cf by simp
    then have v: "verdict (Suc 0) env cf m = Some (Inr True)"
      using direct by (simp add: verdict_step)
    from hdfc_state[OF direct(3)] have a2: "analysisCache a2 = analysisCache a"
      "changedFiles a2 = changedFiles a" by simp_all
    have "sound env cf ((analysisCache a)(k \<mapsto> True))"
      using s ab direct(1) v by (rule sound_store)
    with v cf a2 show "(\<exists>n. verdict n env cf m = Some (Inr True))
       \<and> sound env cf (analysisCache
            (log a2 LevelDebug ''Module has direct file changes'' [S (Clean m)]
             \<lparr>analysisCache := (analysisCache a2)(k \<mapsto> True)\<rparr>))
       \<and> changedFiles
            (log a2 LevelDebug ''Module has direct file changes'' [S (Clean m)]
             \<lparr>analysisCache := (analysisCache a2)(k \<mapsto> True)\<rparr>) = cf"
      by auto
  qed
next
  case (parseerr m k a a2 e)
  show ?case
  proof (intro impI)
    assume s: "sound env cf (analysisCache a)" and cf: "changedFiles a = cf"
      and ab: "resolved env m"
    have "directChange env cf (Clean m) = Inr False"
      using directChange_eq[of "begun a (Clean m)" cf env "Clean m"] parseerr(3) cf by simp
    then have v: "verdict (Suc 0) env cf m = Some (Inr False)"
      using parseerr by (simp add: verdict_step)
    from hdfc_state[OF parseerr(3)] have a2: "analysisCache a2 = analysisCache a"
      "changedFiles a2 = changedFiles a" by simp_all
    have "sound env cf ((analysisCache a)(k \<mapsto> False))"
      using s ab parseerr(1) v by (rule sound_store)
    with v cf a2 show "(\<exists>n. verdict n env cf m = Some (Inr False))
       \<and> sound env cf (analysisCache
            (log (descending a2 (Clean m)) LevelWarn ''Failed to find child modules''
              [S (Clean m), E e]
             \<lparr>analysisCache := (analysisCache a2)(k \<mapsto> False)\<rparr>))
       \<and> changedFiles
            (log (descending a2 (Clean m)) LevelWarn ''Failed to find child modules''
              [S (Clean m), E e]
             \<lparr>analysisCache := (analysisCache a2)(k \<mapsto> False)\<rparr>) = cf"
      by auto
  qed
next
  case (children m k a a2 cs r a')
  show ?case
  proof (intro impI)
    assume s: "sound env cf (analysisCache a)" and cf: "changedFiles a = cf"
      and ab: "resolved env m"
    let ?a3 = "log (descending a2 (Clean m)) LevelDebug ''Found child modules'' [S (Clean m), L cs]"
    have dc: "directChange env cf (Clean m) = Inr False"
      using directChange_eq[of "begun a (Clean m)" cf env "Clean m"] children(3) cf by simp
    from hdfc_state[OF children(3)] have a2: "analysisCache a2 = analysisCache a"
      "changedFiles a2 = changedFiles a" by simp_all
    have abs_cs: "\<forall>c\<in>set cs. resolved env c"
      using children_resolved[OF ab children(4)] by blast
    have pre: "sound env cf (analysisCache ?a3)" "changedFiles ?a3 = cf"
      "resolved env (Clean m)" "Clean (Clean m) = Clean m"
      using s cf a2 ab by (simp_all add: resolved_Clean Clean_idem)
    from children(6) pre abs_cs obtain n where
      n: "verdictLoop (verdict n env cf) cs = Some r" and cf': "changedFiles a' = cf"
      and post: "case r of Inl e \<Rightarrow> sound env cf (analysisCache a')
           | Inr v \<Rightarrow> \<exists>c0 k. sound env cf c0 \<and> cacheKey env (Clean m) = Inr k
                      \<and> analysisCache a' = c0(k \<mapsto> v)"
      by blast
    have v: "verdict (Suc n) env cf m = Some r"
      using children(1,2,4) children.hyps dc n by (simp add: verdict_step)
    have "sound env cf (analysisCache a')"
    proof (cases r)
      case (Inl e)
      with post show ?thesis by simp
    next
      case (Inr b)
      with post obtain c0 k' where c0: "sound env cf c0" "cacheKey env (Clean m) = Inr k'"
        "analysisCache a' = c0(k' \<mapsto> b)" by auto
      from v Inr have "verdict (Suc n) env cf m = Some (Inr b)" by simp
      from sound_store[OF c0(1) ab c0(2) this] c0(3) show ?thesis by simp
    qed
    with v cf' show "(\<exists>n. verdict n env cf m = Some r) \<and> sound env cf (analysisCache a')
       \<and> changedFiles a' = cf" by blast
  qed
next
  case (loop_done a M r a')
  show ?case
  proof (intro impI)
    assume s: "sound env cf (analysisCache a)" and cf: "changedFiles a = cf"
      and ab: "resolved env M" and cl: "Clean M = M"
    from resolved_key[OF ab] cl obtain k where key: "cacheKey env M = Inr k" by auto
    from loop_done cacheAndReturn_key[OF key] have r: "r = Inr False"
      and a': "a' = (log a LevelDebug ''Module is not updated'' [S M])
                 \<lparr>analysisCache := (analysisCache a)(k \<mapsto> False)\<rparr>"
      by simp_all
    have "verdictLoop (verdict 0 env cf) [] = Some r" using r by simp
    moreover have "changedFiles a' = cf" using a' cf by simp
    moreover have "\<exists>c0 k. sound env cf c0 \<and> cacheKey env M = Inr k
        \<and> analysisCache a' = c0(k \<mapsto> False)"
      using s a' key by auto
    ultimately show "(\<exists>n. verdictLoop (verdict n env cf) [] = Some r) \<and> changedFiles a' = cf
       \<and> (case r of Inl e \<Rightarrow> sound env cf (analysisCache a')
           | Inr v \<Rightarrow> \<exists>c0 k. sound env cf c0 \<and> cacheKey env M = Inr k
                      \<and> analysisCache a' = c0(k \<mapsto> v))"
      using r by auto
  qed
next
  case (loop_err a c e a1 M cs)
  show ?case
  proof (intro impI)
    assume s: "sound env cf (analysisCache a)" and cf: "changedFiles a = cf"
      and abs_cs: "\<forall>c\<in>set (c # cs). resolved env c"
    with loop_err(2) obtain n where n: "verdict n env cf c = Some (Inl e)"
      and s1: "sound env cf (analysisCache a1)" and cf1: "changedFiles a1 = cf" by auto
    from n have "verdictLoop (verdict n env cf) (c # cs) =
        Some (Inl (Wrapf ''failed to analyze child module %s: %w'' [c] e))" by simp
    with s1 cf1 show "(\<exists>n. verdictLoop (verdict n env cf) (c # cs) =
          Some (Inl (Wrapf ''failed to analyze child module %s: %w'' [c] e)))
       \<and> changedFiles a1 = cf
       \<and> (case Inl (Wrapf ''failed to analyze child module %s: %w'' [c] e) of
             Inl e \<Rightarrow> sound env cf (analysisCache a1)
           | Inr v \<Rightarrow> \<exists>c0 k. sound env cf c0 \<and> cacheKey env M = Inr k
                      \<and> analysisCache a1 = c0(k \<mapsto> v))"
      by auto
  qed
next
  case (loop_true a c a1 M r a' cs)
  show ?case
  proof (intro impI)
    assume s: "sound env cf (analysisCache a)" and cf: "changedFiles a = cf"
      and ab: "resolved env M" and cl: "Clean M = M"
      and abs_cs: "\<forall>c\<in>set (c # cs). resolved env c"
    with loop_true(2) obtain n where n: "verdict n env cf c = Some (Inr True)"
      and s1: "sound env cf (analysisCache a1)" and cf1: "changedFiles a1 = cf" by auto
    from resolved_key[OF ab] cl obtain k where key: "cacheKey env M = Inr k" by auto
    from loop_true(3) cacheAndReturn_key[OF key] have r: "r = Inr True"
      and a': "a' = (log a1 LevelDebug ''Child module is updated'' [S M, S c])
                 \<lparr>analysisCache := (analysisCache a1)(k \<mapsto> True)\<rparr>"
      by simp_all
    from n have "verdictLoop (verdict n env cf) (c # cs) = Some r" using r by simp
    moreover have "changedFiles a' = cf" using a' cf1 by simp
    moreover have "\<exists>c0 k. sound env cf c0 \<and> cacheKey env M = Inr k
        \<and> analysisCache a' = c0(k \<mapsto> True)"
      using s1 a' key by auto
    ultimately show "(\<exists>n. verdictLoop (verdict n env cf) (c # cs) = Some r)
       \<and> changedFiles a' = cf
       \<and> (case r of Inl e \<Rightarrow> sound env cf (analysisCache a')
           | Inr v \<Rightarrow> \<exists>c0 k. sound env cf c0 \<and> cacheKey env M = Inr k
                      \<and> analysisCache a' = c0(k \<mapsto> v))"
      using r by auto
  qed
next
  case (loop_false a c a1 M cs r a')
  show ?case
  proof (intro impI)
    assume s: "sound env cf (analysisCache a)" and cf: "changedFiles a = cf"
      and ab: "resolved env M" and cl: "Clean M = M"
      and abs_cs: "\<forall>c\<in>set (c # cs). resolved env c"
    with loop_false(2) obtain n1 where n1: "verdict n1 env cf c = Some (Inr False)"
      and s1: "sound env cf (analysisCache a1)" and cf1: "changedFiles a1 = cf" by auto
    from loop_false(4) s1 cf1 ab cl abs_cs obtain n2 where
      n2: "verdictLoop (verdict n2 env cf) cs = Some r" and cf': "changedFiles a' = cf"
      and post: "case r of Inl e \<Rightarrow> sound env cf (analysisCache a')
           | Inr v \<Rightarrow> \<exists>c0 k. sound env cf c0 \<and> cacheKey env M = Inr k
                      \<and> analysisCache a' = c0(k \<mapsto> v)"
      by auto
    have "verdict (max n1 n2) env cf c = Some (Inr False)"
      by (rule verdict_mono[OF n1]) simp
    moreover have "verdictLoop (verdict (max n1 n2) env cf) cs = Some r"
      by (rule verdictLoop_max[OF n2]) simp
    ultimately have "verdictLoop (verdict (max n1 n2) env cf) (c # cs) = Some r" by simp
    with cf' post show "(\<exists>n. verdictLoop (verdict n env cf) (c # cs) = Some r)
       \<and> changedFiles a' = cf
       \<and> (case r of Inl e \<Rightarrow> sound env cf (analysisCache a')
           | Inr v \<Rightarrow> \<exists>c0 k. sound env cf c0 \<and> cacheKey env M = Inr k
                      \<and> analysisCache a' = c0(k \<mapsto> v))"
      by blast
  qed
qed

lemma sound_IMU:
  assumes "IsModuleUpdated n env a m = Some (r, a')" "sound env (changedFiles a) (analysisCache a)"
    "resolved env m"
  shows "(\<exists>n. verdict n env (changedFiles a) m = Some r)
       \<and> sound env (changedFiles a) (analysisCache a') \<and> changedFiles a' = changedFiles a"
  using sound_run(1)[OF IMU_run[OF assms(1)], of "changedFiles a"] assms(2,3) by simp

text \<open>
  From a sound cache, the call returns whatever verdict there is, at the same depth.
\<close>

lemma complete_loop:
  assumes IH: "\<And>a c r. verdict n env cf c = Some r \<Longrightarrow> sound env cf (analysisCache a) \<Longrightarrow>
      changedFiles a = cf \<Longrightarrow> resolved env c \<Longrightarrow> \<exists>a'. IsModuleUpdated n env a c = Some (r, a')"
    and key: "cacheKey env M = Inr k"
  shows "verdictLoop (verdict n env cf) cs = Some r \<Longrightarrow> sound env cf (analysisCache a) \<Longrightarrow>
    changedFiles a = cf \<Longrightarrow> \<forall>c\<in>set cs. resolved env c \<Longrightarrow>
    \<exists>a'. childLoop (IsModuleUpdated n env) env a M cs = Some (r, a')"
proof (induction cs arbitrary: a)
  case Nil
  then show ?case by (simp add: cacheAndReturn_key[OF key])
next
  case (Cons c cs)
  from Cons.prems(1) obtain rc where rc: "verdict n env cf c = Some rc"
    by (cases "verdict n env cf c") auto
  from Cons.prems(4) have abc: "resolved env c" by simp
  from IH[OF rc Cons.prems(2,3) abc] obtain a1 where
    a1: "IsModuleUpdated n env a c = Some (rc, a1)" by blast
  from sound_IMU[OF a1] Cons.prems(2,3) abc
  have s1: "sound env cf (analysisCache a1)" and cf1: "changedFiles a1 = cf" by simp_all
  show ?case
  proof (cases rc)
    case (Inl e)
    with Cons.prems(1) rc have "r = Inl (Wrapf ''failed to analyze child module %s: %w'' [c] e)"
      by simp
    with a1 Inl show ?thesis by simp
  next
    case (Inr b)
    show ?thesis
    proof (cases b)
      case True
      with Inr Cons.prems(1) rc have "r = Inr True" by simp
      with a1 Inr True show ?thesis by (simp add: cacheAndReturn_key[OF key])
    next
      case False
      with Inr Cons.prems(1) rc have "verdictLoop (verdict n env cf) cs = Some r" by simp
      from Cons.IH[OF this s1 cf1] Cons.prems(4) obtain a' where
        "childLoop (IsModuleUpdated n env) env a1 M cs = Some (r, a')" by auto
      with a1 Inr False show ?thesis by simp
    qed
  qed
qed

lemma complete:
  "verdict n env cf m = Some r \<Longrightarrow> sound env cf (analysisCache a) \<Longrightarrow>
   changedFiles a = cf \<Longrightarrow> resolved env m \<Longrightarrow> \<exists>a'. IsModuleUpdated n env a m = Some (r, a')"
proof (induction n arbitrary: a m r)
  case 0
  then show ?case by simp
next
  case (Suc n)
  from resolved_key[OF Suc.prems(4)] obtain k where key: "cacheKey env (Clean m) = Inr k" ..
  note vs = verdict_step[OF key, of n cf]
  show ?case
  proof (cases "analysisCache a k")
    case (Some b)
    from sound_lookup[OF Suc.prems(2,4) key Some] obtain n' where
      "verdict n' env cf m = Some (Inr b)" ..
    from verdict_det[OF Suc.prems(1) this] have "r = Inr b" .
    with IMU_hit[OF key Some, of n] show ?thesis by simp
  next
    case None
    note miss = IMU_miss[OF key None, of n]
    show ?thesis
    proof (cases "Stat env (Clean m) = NotExist")
      case True
      with Suc.prems(1) have "r = Inr False" by (simp add: vs)
      with True show ?thesis by (simp add: miss)
    next
      case ex: False
      have dc: "fst (hasDirectFileChanges env (begun a (Clean m)) (Clean m))
          = directChange env cf (Clean m)"
        by (rule directChange_eq) (simp add: Suc.prems(3))
      show ?thesis
      proof (cases rule: hdfc_cases[of env "begun a (Clean m)" "Clean m"])
        case (hd_err e a2)
        with dc have "directChange env cf (Clean m) = Inl e" by simp
        with ex Suc.prems(1) have
          "r = Inl (Wrapf ''failed to check direct changes in %s: %w'' [Clean m] e)"
          by (simp add: vs)
        with ex hd_err show ?thesis by (simp add: miss)
      next
        case (hd_true a2)
        with dc have "directChange env cf (Clean m) = Inr True" by simp
        with ex Suc.prems(1) have "r = Inr True" by (simp add: vs)
        with ex hd_true show ?thesis by (simp add: miss)
      next
        case (hd_false a2)
        with dc have dcf: "directChange env cf (Clean m) = Inr False" by simp
        from hdfc_state[OF hd_false] have a2: "analysisCache a2 = analysisCache a"
          "changedFiles a2 = changedFiles a" by simp_all
        show ?thesis
        proof (cases "FindChildModules env (Clean m)")
          case (Inl e)
          with dcf ex Suc.prems(1) have "r = Inr False" by (simp add: vs)
          with ex hd_false Inl show ?thesis by (simp add: miss)
        next
          case (Inr cs)
          let ?a3 = "log (descending a2 (Clean m)) LevelDebug ''Found child modules''
                       [S (Clean m), L cs]"
          from Inr dcf ex Suc.prems(1) have vl: "verdictLoop (verdict n env cf) cs = Some r"
            by (simp add: vs)
          have abs_cs: "\<forall>c\<in>set cs. resolved env c"
            using children_resolved[OF Suc.prems(4) Inr] by blast
          have s3: "sound env cf (analysisCache ?a3)" "changedFiles ?a3 = cf"
            using Suc.prems(2,3) a2 by simp_all
          from complete_loop[of n env cf "Clean m" k cs r ?a3, OF Suc.IH key vl s3 abs_cs]
          obtain a' where
            "childLoop (IsModuleUpdated n env) env ?a3 (Clean m) cs = Some (r, a')" by blast
          with ex hd_false Inr show ?thesis by (simp add: miss)
        qed
      qed
    qed
  qed
qed

lemma populated_sound:
  "populated env a0 a \<Longrightarrow>
     sound env (changedFiles a0) (analysisCache a) \<and> changedFiles a = changedFiles a0"
proof (induction rule: populated.induct)
  case fresh
  then show ?case by (simp add: sound_def)
next
  case (query a m n r a')
  with sound_IMU[OF query(3)] show ?case by simp
qed

lemma returns_verdict:
  assumes "populated env a0 a" "resolved env m"
  shows "returns env a m r \<longleftrightarrow> (\<exists>n. verdict n env (changedFiles a0) m = Some r)"
proof
  assume "returns env a m r"
  then obtain n a' where "IsModuleUpdated n env a m = Some (r, a')" by (auto simp: returns_def)
  from sound_IMU[OF this] populated_sound[OF assms(1)] assms(2)
  show "\<exists>n. verdict n env (changedFiles a0) m = Some r" by simp
next
  assume "\<exists>n. verdict n env (changedFiles a0) m = Some r"
  then obtain n where n: "verdict n env (changedFiles a0) m = Some r" ..
  from populated_sound[OF assms(1)] have "sound env (changedFiles a0) (analysisCache a)"
    "changedFiles a = changedFiles a0" by simp_all
  from complete[OF n this assms(2)] show "returns env a m r" unfolding returns_def by blast
qed




section \<open>Depth of recursion\<close>

subsection \<open>Termination\<close>

lemma within_Clean: "within d env (Clean m) = within d env m"
  by (cases d) (simp_all add: Clean_idem)

lemma within_Suc: "within d env m \<Longrightarrow> within (Suc d) env m"
proof (induction d arbitrary: m)
  case 0
  then show ?case by simp
next
  case (Suc d)
  show ?case
  proof (cases "FindChildModules env (Clean m)")
    case (Inl e)
    then show ?thesis by simp
  next
    case (Inr cs)
    with Suc.prems have "list_all (within d env) cs" by simp
    then have "list_all (within (Suc d) env) cs"
      using Suc.IH by (simp add: list_all_iff)
    with Inr show ?thesis by simp
  qed
qed

lemma within_mono:
  assumes "within d env m" "d \<le> d'"
  shows "within d' env m"
  using assms(2,1) by (induction rule: dec_induct) (auto intro: within_Suc simp del: within.simps)

lemma within_common:
  "\<forall>c\<in>set cs. \<exists>d. within d env c \<Longrightarrow> \<exists>d. \<forall>c\<in>set cs. within d env c"
proof (induction cs)
  case Nil
  then show ?case by simp
next
  case (Cons c cs)
  then obtain d1 d2 where d1: "within d1 env c" and d2: "\<forall>c\<in>set cs. within d2 env c" by auto
  have "within (max d1 d2) env c" by (rule within_mono[OF d1]) simp
  moreover have "\<forall>c\<in>set cs. within (max d1 d2) env c"
    using d2 within_mono[of d2 env _ "max d1 d2"] by simp
  ultimately show ?case by (intro exI[of _ "max d1 d2"]) simp
qed

lemma FindChildModules_clean:
  assumes "FindChildModules env M = Inr cs" "c \<in> set cs"
  shows "Clean c = c"
proof -
  from assms(1) obtain entries where "cs = childModules_spec env M entries"
    using FindChildModules_char by blast
  with assms(2) obtain s where "c = Clean (Join M s)" by (auto simp: childModules_spec_def)
  then show ?thesis by (simp add: Clean_idem)
qed

lemma wf_within:
  assumes "wf (refs env)"
  shows "Clean m = m \<Longrightarrow> \<exists>d. within d env m"
  using assms
proof (induction m rule: wf_induct_rule)
  case (less m)
  show ?case
  proof (cases "FindChildModules env m")
    case (Inl e)
    with less.prems have "within (Suc 0) env m" by simp
    then show ?thesis ..
  next
    case (Inr cs)
    have "\<exists>d. within d env c" if "c \<in> set cs" for c
    proof -
      from that Inr less.prems have "(c, m) \<in> refs env" by (auto simp: refs_def)
      moreover have "Clean c = c" using FindChildModules_clean[OF Inr that] .
      ultimately show ?thesis by (rule less.IH)
    qed
    then have "\<exists>d. \<forall>c\<in>set cs. within d env c" by (intro within_common) blast
    then obtain d where "\<forall>c\<in>set cs. within d env c" ..
    with Inr less.prems have "within (Suc d) env m" by (simp add: list_all_iff)
    then show ?thesis ..
  qed
qed

lemma acyclic_within:
  assumes "finite (refs env)" "acyclic (refs env)"
  shows "\<exists>d. within d env m"
proof -
  from assms have "wf (refs env)" by (rule finite_acyclic_wf)
  from wf_within[OF this, of "Clean m"] show ?thesis by (simp add: Clean_idem within_Clean)
qed

lemma childLoop_returns:
  assumes "\<And>a c. c \<in> set cs \<Longrightarrow> \<exists>x. rec a c = Some x"
  shows "\<exists>x. childLoop rec env a M cs = Some x"
  using assms
proof (induction cs arbitrary: a)
  case Nil
  then show ?case by simp
next
  case (Cons c cs)
  from Cons.prems[of c a] obtain r a1 where rc: "rec a c = Some (r, a1)" by auto
  show ?case
  proof (cases r)
    case (Inl e)
    with rc show ?thesis by simp
  next
    case (Inr b)
    show ?thesis
    proof (cases b)
      case True
      with Inr rc show ?thesis by simp
    next
      case False
      have "\<exists>x. childLoop rec env a1 M cs = Some x"
      proof (rule Cons.IH)
        fix a' c' assume "c' \<in> set cs"
        then have "c' \<in> set (c # cs)" by simp
        then show "\<exists>x. rec a' c' = Some x" by (rule Cons.prems)
      qed
      with False Inr rc show ?thesis by simp
    qed
  qed
qed

lemma within_returns: "within d env m \<Longrightarrow> \<exists>x. IsModuleUpdated d env a m = Some x"
proof (induction d arbitrary: a m)
  case 0
  then show ?case by simp
next
  case (Suc d)
  show ?case
  proof (cases "cacheKey env (Clean m)")
    case (Inl e)
    then show ?thesis by (simp add: IMU_keyerr)
  next
    case (Inr k)
    show ?thesis
    proof (cases "analysisCache a k")
      case (Some b)
      with Inr show ?thesis by (simp add: IMU_hit)
    next
      case None
      note miss = IMU_miss[OF Inr None, of d]
      show ?thesis
      proof (cases "Stat env (Clean m) = NotExist")
        case True
        then show ?thesis by (simp add: miss)
      next
        case ex: False
        show ?thesis
        proof (cases rule: hdfc_cases[of env "begun a (Clean m)" "Clean m"])
          case (hd_err e a2)
          with ex show ?thesis by (simp add: miss)
        next
          case (hd_true a2)
          with ex show ?thesis by (simp add: miss)
        next
          case (hd_false a2)
          show ?thesis
          proof (cases "FindChildModules env (Clean m)")
            case (Inl e)
            with hd_false ex show ?thesis by (simp add: miss)
          next
            case cs: (Inr cs)
            with Suc.prems have w: "\<forall>c\<in>set cs. within d env c" by (simp add: list_all_iff)
            have "\<exists>x. childLoop (IsModuleUpdated d env) env
                (log (descending a2 (Clean m)) LevelDebug ''Found child modules''
                   [S (Clean m), L cs]) (Clean m) cs = Some x"
              by (rule childLoop_returns) (use w Suc.IH in blast)
            with hd_false ex cs show ?thesis by (simp add: miss)
          qed
        qed
      qed
    qed
  qed
qed

subsection \<open>Cycles\<close>

lemma verdictLoop_stuck:
  assumes "\<forall>p\<in>set pre. rec p = None \<or> rec p = Some (Inr False)" "rec c = None"
  shows "verdictLoop rec (pre @ c # post) = None"
  using assms by (induction pre) auto

lemma cycle_verdict:
  assumes "\<And>p. p \<in> C \<Longrightarrow> resolved env p \<and> Clean p = p \<and> Stat env p \<noteq> NotExist
      \<and> directChange env cf p = Inr False
      \<and> (\<exists>pre c post. FindChildModules env p = Inr (pre @ c # post) \<and> c \<in> C
            \<and> (\<forall>q\<in>set pre. \<exists>n. verdict n env cf q = Some (Inr False)))"
  shows "m \<in> C \<Longrightarrow> verdict n env cf m = None"
proof (induction n arbitrary: m)
  case 0
  then show ?case by simp
next
  case (Suc n)
  from assms[OF Suc.prems] obtain pre c post where
    m: "resolved env m" "Clean m = m" "Stat env m \<noteq> NotExist" "directChange env cf m = Inr False"
    and cs: "FindChildModules env m = Inr (pre @ c # post)" and c: "c \<in> C"
    and pre: "\<forall>q\<in>set pre. \<exists>n. verdict n env cf q = Some (Inr False)" by blast
  have "verdict n env cf q = None \<or> verdict n env cf q = Some (Inr False)" if "q \<in> set pre" for q
  proof (cases "verdict n env cf q")
    case None
    then show ?thesis by simp
  next
    case (Some r)
    from pre that obtain n' where "verdict n' env cf q = Some (Inr False)" by blast
    from verdict_det[OF Some this] Some show ?thesis by simp
  qed
  then have "verdictLoop (verdict n env cf) (pre @ c # post) = None"
    using Suc.IH[OF c] by (intro verdictLoop_stuck) blast+
  moreover from resolved_key[OF m(1)] obtain k where "cacheKey env (Clean m) = Inr k" ..
  note verdict_step[OF this, of n cf]
  ultimately show ?case using m cs by simp
qed

lemma cycle_never_returns:
  assumes pop: "populated env a0 a" and step: "\<forall>p\<in>C. cycle_step env a C p" and m: "m \<in> C"
  shows "IsModuleUpdated n env a m = None"
proof (cases "IsModuleUpdated n env a m")
  case None
  then show ?thesis .
next
  case (Some x)
  obtain r a' where x: "x = (r, a')" by (cases x)
  from populated_sound[OF pop] have s: "sound env (changedFiles a0) (analysisCache a)"
    and cf: "changedFiles a = changedFiles a0" by simp_all
  have hyp: "resolved env p \<and> Clean p = p \<and> Stat env p \<noteq> NotExist
      \<and> directChange env (changedFiles a0) p = Inr False
      \<and> (\<exists>pre c post. FindChildModules env p = Inr (pre @ c # post) \<and> c \<in> C
            \<and> (\<forall>q\<in>set pre. \<exists>n. verdict n env (changedFiles a0) q = Some (Inr False)))"
    if "p \<in> C" for p
  proof -
    from step that have cs: "cycle_step env a C p" by blast
    then obtain pre c post where
      f: "FindChildModules env p = Inr (pre @ c # post)" "c \<in> C"
      "\<forall>q\<in>set pre. returns env a q (Inr False)" unfolding cycle_step_def by blast
    from cs have ab: "resolved env p" and basic: "Clean p = p" "Stat env p \<noteq> NotExist"
      "directChange env (changedFiles a) p = Inr False" by (simp_all add: cycle_step_def)
    have vq: "\<exists>n. verdict n env (changedFiles a0) q = Some (Inr False)" if "q \<in> set pre" for q
    proof -
      from children_resolved[OF ab, of "pre @ c # post" q] f(1) basic(1) that
      have "resolved env q" by simp
      from returns_verdict[OF pop this] f(3) that show ?thesis by blast
    qed
    have "\<exists>pre c post. FindChildModules env p = Inr (pre @ c # post) \<and> c \<in> C
            \<and> (\<forall>q\<in>set pre. \<exists>n. verdict n env (changedFiles a0) q = Some (Inr False))"
      using f(1,2) vq by blast
    with ab basic cf show ?thesis by simp
  qed
  from step m have "resolved env m" by (auto simp: cycle_step_def)
  from sound_IMU[OF Some[unfolded x]] s cf this obtain n' where
    "verdict n' env (changedFiles a0) m = Some r" by auto
  with cycle_verdict[of C env "changedFiles a0" m n', OF hyp m] show ?thesis by simp
qed

subsection \<open>More facts about the example trees\<close>

lemma ex_fresh: "populated env_ex analyzer_ex analyzer_ex"
  by (rule populated.fresh) (simp add: analyzer_ex_def)

lemma IsAbs_slash: "IsAbs (CHR ''/'' # p)"
  by (simp add: IsAbs_def)

lemma ex_after_dev:
  "populated env_ex analyzer_ex (snd (the (IsModuleUpdated 5 env_ex analyzer_ex ''/r/env/dev'')))"
  by (rule populated.query[OF ex_fresh _ returned[OF ex_dev]]) (rule resolved_abs, rule IsAbs_slash)

lemma ex_prod_after_dev:
  "map_option fst (IsModuleUpdated 5 env_ex
     (snd (the (IsModuleUpdated 5 env_ex analyzer_ex ''/r/env/dev''))) ''/r/env/prod'')
   = Some (Inr True)"
  by code_simp

lemma ex_mod_a_cached:
  "analysisCache (snd (the (IsModuleUpdated 5 env_ex analyzer_ex ''/r/env/dev''))) ''/r/mod/a''
   = Some True"
  by code_simp

lemma ex_test:
  "map_option fst (IsModuleUpdated 5 env_ex analyzer_ex ''/r/env/test'') =
     Some (Inl (Wrapf ''failed to analyze child module %s: %w'' [''/r/mod/locked'']
       (Wrapf ''failed to check direct changes in %s: %w'' [''/r/mod/locked'']
         (Wrapf ''failed to read directory %s: %w'' [''/r/mod/locked'']
           (OsError ''permission denied'')))))"
  by code_simp

lemma dag_unreadable:
  "p \<noteq> ''/r/p'' \<Longrightarrow> \<exists>e. FindChildModules env_dag p = Inl e"
  by (simp add: FindChildModules_def findTerraformFiles_def env_dag_def)

lemma dag_children: "FindChildModules env_dag ''/r/p'' = Inr [''/r/c'']"
  by code_simp

lemma dag_refs: "refs env_dag \<subseteq> {(''/r/c'', ''/r/p'')}"
proof
  fix x assume x: "x \<in> refs env_dag"
  obtain c p where cp: "x = (c, p)" by (cases x)
  with x obtain cs where cs: "FindChildModules env_dag p = Inr cs" "c \<in> set cs"
    by (auto simp: refs_def)
  have p: "p = ''/r/p''"
  proof (rule ccontr)
    assume "p \<noteq> ''/r/p''"
    from dag_unreadable[OF this] cs(1) show False by auto
  qed
  with cs dag_children have "cs = [''/r/c'']" by simp
  with cs(2) have "c = ''/r/c''" by simp
  with p cp show "x \<in> {(''/r/c'', ''/r/p'')}" by simp
qed

lemma dag_finite: "finite (refs env_dag)"
  by (rule finite_subset[OF dag_refs]) simp

lemma dag_acyclic: "acyclic (refs env_dag)"
proof (rule acyclic_subset[OF _ dag_refs])
  have "wf ({} :: (string \<times> string) set)" by simp
  then have "acyclic ({} :: (string \<times> string) set)" by (rule wf_acyclic)
  then show "acyclic {(''/r/c'', ''/r/p'')}" by (simp add: acyclic_insert)
qed

lemma ex_within_dev: "within 2 env_ex ''/r/env/dev''"
  by code_simp

lemma ex_mod_b: "map_option fst (IsModuleUpdated 1 env_ex analyzer_ex ''/r/mod/b'') = Some (Inr False)"
  by code_simp

lemma ex_mod_b_returns: "returns env_ex analyzer_ex ''/r/mod/b'' (Inr False)"
  unfolding returns_def using returned[OF ex_mod_b] by blast

lemma ex_cyc_a_facts:
  "Clean ''/r/cyc/a'' = ''/r/cyc/a''" "Stat env_ex ''/r/cyc/a'' \<noteq> NotExist"
  "directChange env_ex (changedFiles analyzer_ex) ''/r/cyc/a'' = Inr False"
  "FindChildModules env_ex ''/r/cyc/a'' = Inr ([''/r/mod/b''] @ ''/r/cyc/b'' # [])"
  by code_simp+

lemma ex_cyc_b_facts:
  "Clean ''/r/cyc/b'' = ''/r/cyc/b''" "Stat env_ex ''/r/cyc/b'' \<noteq> NotExist"
  "directChange env_ex (changedFiles analyzer_ex) ''/r/cyc/b'' = Inr False"
  "FindChildModules env_ex ''/r/cyc/b'' = Inr ([] @ ''/r/cyc/a'' # [])"
  by code_simp+

lemma ex_cyc_a: "cycle_step env_ex analyzer_ex {''/r/cyc/a'', ''/r/cyc/b''} ''/r/cyc/a''"
  unfolding cycle_step_def
proof (intro conjI exI)
  show "FindChildModules env_ex ''/r/cyc/a'' = Inr ([''/r/mod/b''] @ ''/r/cyc/b'' # [])"
    by (rule ex_cyc_a_facts)
  show "\<forall>p\<in>set [''/r/mod/b'']. returns env_ex analyzer_ex p (Inr False)"
    using ex_mod_b_returns by simp
qed (simp_all add: ex_cyc_a_facts resolved_def IsAbs_slash)

lemma ex_cyc_b: "cycle_step env_ex analyzer_ex {''/r/cyc/a'', ''/r/cyc/b''} ''/r/cyc/b''"
  unfolding cycle_step_def
proof (intro conjI exI)
  show "FindChildModules env_ex ''/r/cyc/b'' = Inr ([] @ ''/r/cyc/a'' # [])"
    by (rule ex_cyc_b_facts)
qed (simp_all add: ex_cyc_b_facts resolved_def IsAbs_slash)

lemma ex_test_key: "cacheKey env_ex (Clean ''/r/env/test'') = Inr ''/r/env/test''"
  by code_simp



lemma ex_changed_clean: "Clean ''/r/mod/a/main.tf'' = ''/r/mod/a/main.tf''"
  by code_simp

lemma ex_NewAnalyzer: "NewAnalyzer env_ex [''/r/mod/a/main.tf''] = Inr analyzer_ex"
  by (simp add: NewAnalyzer_def analyzer_ex_def Abs_of_abs IsAbs_slash ex_changed_clean)

lemma ex_batch:
  "AnalyzeRootModules 5 env_ex [''/r/env/dev'', ''/r/mod/b'', ''/r/env/prod'']
     [''/r/mod/a/main.tf''] ''/r'' = Some (Inr [''env/dev'', ''env/prod''])"
  by code_simp

lemma ex_queries_bad:
  "queries 5 env_ex analyzer_ex [''/r/env/dev'', ''/r/env/test'', ''/r/env/prod''] =
     Some [(''/r/env/dev'', Inr True),
           (''/r/env/test'',
            Inl (Wrapf ''failed to analyze child module %s: %w'' [''/r/mod/locked'']
              (Wrapf ''failed to check direct changes in %s: %w'' [''/r/mod/locked'']
                (Wrapf ''failed to read directory %s: %w'' [''/r/mod/locked'']
                  (OsError ''permission denied'')))))]"
  by code_simp

section \<open>The claims about one engine\<close>



text \<open>
  C2. Let the directory have no cached verdict and let \<^verbatim>\<open>os.Stat\<close> not report it missing.
  If it has no direct change and \<^verbatim>\<open>FindChildModules\<close> fails, \<^verbatim>\<open>IsModuleUpdated\<close> returns
  \<open>false\<close> without an error, stores \<open>false\<close> under the key of the directory and nothing
  else, and the last record it writes to the logger is the warning that carries the
  failure. If reading the entries of the directory fails in the direct-change check,
  \<^verbatim>\<open>IsModuleUpdated\<close> returns an error that wraps the error of \<^verbatim>\<open>os.ReadDir\<close>, and the
  cache is unchanged. Depth one is enough in both cases.
\<close>

theorem fail_open_fail_closed:
  assumes "cacheKey env (Clean m) = Inr k" "analysisCache a k = None"
    and "Stat env (Clean m) \<noteq> NotExist"
  shows "(fst (hasDirectFileChanges env a (Clean m)) = Inr False
            \<and> FindChildModules env (Clean m) = Inl e \<longrightarrow>
          (\<exists>a'. IsModuleUpdated (Suc n) env a m = Some (Inr False, a')
             \<and> analysisCache a' = (analysisCache a)(k \<mapsto> False)
             \<and> last (logger a') =
                 (LevelWarn, ''Failed to find child modules'', [S (Clean m), E e])))
       \<and> (ReadDir env (Clean m) = Inl e' \<longrightarrow>
          (\<exists>a'. IsModuleUpdated (Suc n) env a m =
               Some (Inl (Wrapf ''failed to check direct changes in %s: %w'' [Clean m]
                       (Wrapf ''failed to read directory %s: %w'' [Clean m] e')), a')
             \<and> analysisCache a' = analysisCache a))"
proof (intro conjI impI)
  assume h: "fst (hasDirectFileChanges env a (Clean m)) = Inr False
            \<and> FindChildModules env (Clean m) = Inl e"
  have "fst (hasDirectFileChanges env (begun a (Clean m)) (Clean m)) = Inr False"
    using hdfc_value[of "begun a (Clean m)" a env "Clean m"] h by simp
  then obtain a2 where hd: "hasDirectFileChanges env (begun a (Clean m)) (Clean m) = (Inr False, a2)"
    by (cases "hasDirectFileChanges env (begun a (Clean m)) (Clean m)") auto
  from hdfc_state[OF hd] have c2: "analysisCache a2 = analysisCache a" by simp
  let ?a' = "(log (descending a2 (Clean m)) LevelWarn ''Failed to find child modules''
                    [S (Clean m), E e])\<lparr>analysisCache := (analysisCache a2)(k \<mapsto> False)\<rparr>"
  have "IsModuleUpdated (Suc n) env a m = Some (Inr False, ?a')"
    using assms hd h by (simp add: IMU_miss)
  moreover have "analysisCache ?a' = (analysisCache a)(k \<mapsto> False)" using c2 by simp
  moreover have "last (logger ?a') =
      (LevelWarn, ''Failed to find child modules'', [S (Clean m), E e])" by simp
  ultimately show "\<exists>a'. IsModuleUpdated (Suc n) env a m = Some (Inr False, a')
             \<and> analysisCache a' = (analysisCache a)(k \<mapsto> False)
             \<and> last (logger a') =
                 (LevelWarn, ''Failed to find child modules'', [S (Clean m), E e])"
    by blast
next
  assume rd: "ReadDir env (Clean m) = Inl e'"
  let ?a' = "called (begun a (Clean m)) (CallReadDir (Clean m))"
  have hd: "hasDirectFileChanges env (begun a (Clean m)) (Clean m) =
      (Inl (Wrapf ''failed to read directory %s: %w'' [Clean m] e'), ?a')"
    using rd by (simp add: hasDirectFileChanges_def Clean_idem Let_def)
  have "IsModuleUpdated (Suc n) env a m =
               Some (Inl (Wrapf ''failed to check direct changes in %s: %w'' [Clean m]
                       (Wrapf ''failed to read directory %s: %w'' [Clean m] e')), ?a')"
    using assms hd by (simp add: IMU_miss)
  moreover have "analysisCache ?a' = analysisCache a" by simp
  ultimately show "\<exists>a'. IsModuleUpdated (Suc n) env a m =
               Some (Inl (Wrapf ''failed to check direct changes in %s: %w'' [Clean m]
                       (Wrapf ''failed to read directory %s: %w'' [Clean m] e')), a')
             \<and> analysisCache a' = analysisCache a"
    by blast
qed

theorem fail_open_fail_closed_witness:
  "Stat env_ex (Clean ''/r/mod/bad'') \<noteq> NotExist
   \<and> fst (hasDirectFileChanges env_ex analyzer_ex (Clean ''/r/mod/bad'')) = Inr False
   \<and> FindChildModules env_ex (Clean ''/r/mod/bad'') =
        Inl (Wrapf ''failed to parse %s: %w'' [''/r/mod/bad/main.tf'']
               (OsError ''failed to parse HCL file''))
   \<and> (\<exists>a'. IsModuleUpdated (Suc 0) env_ex analyzer_ex ''/r/mod/bad'' = Some (Inr False, a')
         \<and> analysisCache a' = (analysisCache analyzer_ex)(''/r/mod/bad'' \<mapsto> False))
   \<and> Stat env_ex (Clean ''/r/mod/locked'') \<noteq> NotExist
   \<and> ReadDir env_ex (Clean ''/r/mod/locked'') = Inl (OsError ''permission denied'')
   \<and> (\<exists>a'. IsModuleUpdated (Suc 0) env_ex analyzer_ex ''/r/mod/locked'' =
         Some (Inl (Wrapf ''failed to check direct changes in %s: %w'' [Clean ''/r/mod/locked'']
                 (Wrapf ''failed to read directory %s: %w'' [Clean ''/r/mod/locked'']
                    (OsError ''permission denied''))), a')
         \<and> analysisCache a' = analysisCache analyzer_ex)"
  using fail_open_fail_closed[OF ex_bad_hyps(1-3),
          where e = "Wrapf ''failed to parse %s: %w'' [''/r/mod/bad/main.tf'']
                       (OsError ''failed to parse HCL file'')" and n = 0]
        fail_open_fail_closed[OF ex_locked_hyps(1-3),
          where e' = "OsError ''permission denied''" and n = 0]
        ex_bad_hyps ex_locked_hyps
  by blast

text \<open>
  C3. Whenever \<^verbatim>\<open>IsModuleUpdated\<close> returns a verdict, on whichever path (the missing
  directory and the failed extraction included), the cache holds that verdict under the key
  of the directory when the call returns. The key is the absolute path of the cleaned
  directory as \<^verbatim>\<open>filepath.Abs\<close> gives it, and every key of the cache is absolute and
  cleaned, so two spellings with the same absolute cleaned path share one entry. A
  directory whose verdict is in the cache is not analysed again: a later call, on whatever
  directory and through whatever parents, leaves its entry as it is and makes no call to
  \<^verbatim>\<open>os.Stat\<close>, \<^verbatim>\<open>os.ReadDir\<close> or \<^verbatim>\<open>FindChildModules\<close> on it. The working directory is
  taken to be an absolute path, as \<^verbatim>\<open>os.Getwd\<close> returns it.
\<close>

theorem cache_write_discipline:
  assumes "wd_ok env" "canonical (analysisCache a)"
    and "IsModuleUpdated n env a m = Some (r, a')"
  shows "(\<forall>b. r = Inr b \<longrightarrow>
            (\<exists>k. cacheKey env (Clean m) = Inr k \<and> analysisCache a' k = Some b))
       \<and> cacheKey env (Clean m) = Abs env (Clean m)
       \<and> canonical (analysisCache a')
       \<and> (\<forall>k v. analysisCache a k = Some v \<longrightarrow>
            analysisCache a' k = Some v
            \<and> filter (touches env k) (calls a') = filter (touches env k) (calls a))"
proof -
  from assms(3) have run: "run env a m r a'" by (rule IMU_run)
  have 1: "\<forall>b. r = Inr b \<longrightarrow>
            (\<exists>k. cacheKey env (Clean m) = Inr k \<and> analysisCache a' k = Some b)"
    using verdict_cached_aux(1)[OF run] .
  have 2: "canonical (analysisCache a')"
    using canonical_aux(1)[OF assms(1) run] assms(2) by simp
  have 3: "analysisCache a' k = Some v
            \<and> filter (touches env k) (calls a') = filter (touches env k) (calls a)"
    if "analysisCache a k = Some v" for k v
    using run_kept[OF run that] that by (simp add: kept_def)
  from 1 2 3 cacheKey_Abs[OF assms(1)] show ?thesis by blast
qed

theorem cache_write_discipline_witness:
  "wd_ok env_ex \<and> canonical (analysisCache analyzer_ex)
   \<and> map_option fst (IsModuleUpdated 5 env_ex analyzer_ex ''/r/env/dev'') = Some (Inr True)
   \<and> analysisCache (snd (the (IsModuleUpdated 5 env_ex analyzer_ex ''/r/env/dev'')))
        ''/r/env/dev'' = Some True
   \<and> canonical (analysisCache (snd (the (IsModuleUpdated 5 env_ex analyzer_ex ''/r/env/dev''))))"
proof -
  let ?a' = "snd (the (IsModuleUpdated 5 env_ex analyzer_ex ''/r/env/dev''))"
  have run: "IsModuleUpdated 5 env_ex analyzer_ex ''/r/env/dev'' = Some (Inr True, ?a')"
    using ex_dev by (rule returned)
  from cache_write_discipline[OF ex_wd_ok ex_canonical run]
  have "\<exists>k. cacheKey env_ex (Clean ''/r/env/dev'') = Inr k \<and> analysisCache ?a' k = Some True"
    and "canonical (analysisCache ?a')" by blast+
  then show ?thesis using ex_wd_ok ex_canonical ex_dev ex_dev_key by auto
qed

text \<open>
  C5. When \<^verbatim>\<open>IsModuleUpdated(m)\<close> has returned a verdict, a second call on the same
  engine returns the same verdict at depth one, from the cache: the cache, the set of
  changed files and the list of calls to the file system and to the declaration extractor
  are what they were, and the only record written to the logger is the debug record
  \<^verbatim>\<open>Cache hit\<close>.
\<close>

theorem second_call_is_cache_hit:
  assumes "IsModuleUpdated n env a m = Some (Inr b, a')"
  shows "\<exists>a''. IsModuleUpdated (Suc j) env a' m = Some (Inr b, a'')
           \<and> analysisCache a'' = analysisCache a'
           \<and> calls a'' = calls a'
           \<and> changedFiles a'' = changedFiles a'
           \<and> logger a'' = logger a' @ [(LevelDebug, ''Cache hit'', [S (Clean m), B b])]"
proof -
  from assms have "run env a m (Inr b) a'" by (rule IMU_run)
  then obtain k where k: "cacheKey env (Clean m) = Inr k" "analysisCache a' k = Some b"
    using verdict_cached by blast
  from IMU_hit[OF k, of j] show ?thesis by simp
qed

theorem second_call_is_cache_hit_witness:
  "map_option fst (IsModuleUpdated 5 env_ex analyzer_ex ''/r/env/dev'') = Some (Inr True)
   \<and> (\<exists>a''. IsModuleUpdated (Suc 0) env_ex
               (snd (the (IsModuleUpdated 5 env_ex analyzer_ex ''/r/env/dev''))) ''/r/env/dev''
             = Some (Inr True, a'')
        \<and> calls a'' = calls (snd (the (IsModuleUpdated 5 env_ex analyzer_ex ''/r/env/dev''))))"
proof -
  let ?a' = "snd (the (IsModuleUpdated 5 env_ex analyzer_ex ''/r/env/dev''))"
  have run: "IsModuleUpdated 5 env_ex analyzer_ex ''/r/env/dev'' = Some (Inr True, ?a')"
    using ex_dev by (rule returned)
  from second_call_is_cache_hit[OF run, of 0] ex_dev show ?thesis by blast
qed

text \<open>
  C4. Let the cache of an engine have been populated by earlier queries on resolved paths,
  starting from a freshly built engine with the same changed files, and let \<open>m\<close> be a
  resolved path. Whatever \<^verbatim>\<open>IsModuleUpdated(m)\<close> returns on the populated engine, it
  returns on the fresh engine, and the other way round. For a module whose verdict \<open>v\<close> is
  in the cache under \<open>k\<close>: \<open>v\<close> is what the fresh engine returns for it; a later query
  from whatever root leaves the entry as it is and makes no call on the module, so it is
  analysed once; and every call on it returns \<open>v\<close> from the cache.
\<close>

theorem memoization_correct:
  assumes "populated env a0 a" "resolved env m"
  shows "(IsModuleUpdated n env a m = Some (r, a') \<longrightarrow> returns env a0 m r)
       \<and> (IsModuleUpdated n env a0 m = Some (r, b') \<longrightarrow> returns env a m r)
       \<and> (analysisCache a k = Some v \<longrightarrow>
            returns env a0 k (Inr v)
            \<and> (IsModuleUpdated n env a m = Some (r, a') \<longrightarrow> kept env k a a')
            \<and> IsModuleUpdated (Suc j) env a k =
                Some (Inr v, log a LevelDebug ''Cache hit'' [S k, B v]))"
proof (intro conjI impI)
  note p0 = populated_fresh[OF assms(1)]
  note rv = returns_verdict[OF assms] and rv0 = returns_verdict[OF p0 assms(2)]
  {
    assume "IsModuleUpdated n env a m = Some (r, a')"
    then have "returns env a m r" unfolding returns_def by blast
    with rv rv0 show "returns env a0 m r" by simp
  next
    assume "IsModuleUpdated n env a0 m = Some (r, b')"
    then have "returns env a0 m r" unfolding returns_def by blast
    with rv rv0 show "returns env a m r" by simp
  next
    assume kv: "analysisCache a k = Some v"
    note s = populated_sound[OF assms(1)]
    from s have snd: "sound env (changedFiles a0) (analysisCache a)" by simp
    from snd kv obtain n' where "verdict n' env (changedFiles a0) k = Some (Inr v)"
      unfolding sound_def by blast
    with returns_verdict[OF p0 resolved_abs[OF sound_key(3)[OF snd kv]]]
    show "returns env a0 k (Inr v)" by blast
    from IMU_hit[OF sound_key(1)[OF snd kv] kv, of j] sound_key(2)[OF snd kv]
    show "IsModuleUpdated (Suc j) env a k = Some (Inr v, log a LevelDebug ''Cache hit'' [S k, B v])"
      by simp
    assume "IsModuleUpdated n env a m = Some (r, a')"
    from run_kept[OF IMU_run[OF this] kv] show "kept env k a a'" .
  }
qed

theorem memoization_correct_witness:
  "populated env_ex analyzer_ex (snd (the (IsModuleUpdated 5 env_ex analyzer_ex ''/r/env/dev'')))
   \<and> resolved env_ex ''/r/env/prod''
   \<and> map_option fst (IsModuleUpdated 5 env_ex
        (snd (the (IsModuleUpdated 5 env_ex analyzer_ex ''/r/env/dev''))) ''/r/env/prod'')
      = Some (Inr True)
   \<and> returns env_ex analyzer_ex ''/r/env/prod'' (Inr True)
   \<and> analysisCache (snd (the (IsModuleUpdated 5 env_ex analyzer_ex ''/r/env/dev'')))
        ''/r/mod/a'' = Some True
   \<and> returns env_ex analyzer_ex ''/r/mod/a'' (Inr True)
   \<and> kept env_ex ''/r/mod/a'' (snd (the (IsModuleUpdated 5 env_ex analyzer_ex ''/r/env/dev'')))
        (snd (the (IsModuleUpdated 5 env_ex
           (snd (the (IsModuleUpdated 5 env_ex analyzer_ex ''/r/env/dev''))) ''/r/env/prod'')))"
proof -
  let ?a = "snd (the (IsModuleUpdated 5 env_ex analyzer_ex ''/r/env/dev''))"
  let ?a' = "snd (the (IsModuleUpdated 5 env_ex ?a ''/r/env/prod''))"
  have ab: "resolved env_ex ''/r/env/prod''" by (rule resolved_abs) (rule IsAbs_slash)
  note run = returned[OF ex_prod_after_dev]
  from memoization_correct[OF ex_after_dev ab, of 5 "Inr True" ?a' _ "''/r/mod/a''" True]
    run ex_mod_a_cached
  have "returns env_ex analyzer_ex ''/r/env/prod'' (Inr True)"
    "returns env_ex analyzer_ex ''/r/mod/a'' (Inr True)"
    "kept env_ex ''/r/mod/a'' ?a ?a'" by blast+
  with ex_after_dev ab ex_prod_after_dev ex_mod_a_cached show ?thesis by blast
qed

text \<open>
  C10. On an engine populated as in C4 and for a resolved path \<open>m\<close>: when
  \<^verbatim>\<open>IsModuleUpdated(m)\<close> returns an error, the cache has no entry under the key of \<open>m\<close>
  afterwards; every entry it has is the verdict that the analysis of its module returns;
  no earlier entry is lost; and a second call on \<open>m\<close> is not a cache hit: it starts the
  analysis again with \<^verbatim>\<open>os.Stat\<close> on the directory and returns the same error.
\<close>

theorem error_leaves_no_entry:
  assumes "populated env a0 a" "resolved env m" "IsModuleUpdated n env a m = Some (Inl e, a')"
  shows "(\<exists>k. cacheKey env (Clean m) = Inr k \<and> analysisCache a' k = None)
       \<and> (\<forall>k v. analysisCache a' k = Some v \<longrightarrow> returns env a0 k (Inr v))
       \<and> (\<forall>k v. analysisCache a k = Some v \<longrightarrow> analysisCache a' k = Some v)
       \<and> (\<exists>n' a'' rest. IsModuleUpdated n' env a' m = Some (Inl e, a'')
             \<and> calls a'' = calls a' @ CallStat (Clean m) # rest)"
proof -
  from resolved_key[OF assms(2)] obtain k0 where key: "cacheKey env (Clean m) = Inr k0" ..
  note p0 = populated_fresh[OF assms(1)]
  have p': "populated env a0 a'" by (rule populated.query[OF assms])
  from populated_sound[OF p'] have s': "sound env (changedFiles a0) (analysisCache a')"
    and cf': "changedFiles a' = changedFiles a0" by simp_all
  from populated_sound[OF assms(1)] sound_IMU[OF assms(3)] assms(2)
  obtain n0 where v: "verdict n0 env (changedFiles a0) m = Some (Inl e)" by auto
  have none: "analysisCache a' k0 = None"
  proof (cases "analysisCache a' k0")
    case None
    then show ?thesis .
  next
    case (Some b)
    from sound_lookup[OF s' assms(2) key Some] obtain n1 where
      "verdict n1 env (changedFiles a0) m = Some (Inr b)" ..
    from verdict_det[OF v this] show ?thesis by simp
  qed
  have ent: "returns env a0 k (Inr v)" if "analysisCache a' k = Some v" for k v
  proof -
    from s' that obtain n1 where "verdict n1 env (changedFiles a0) k = Some (Inr v)"
      unfolding sound_def by blast
    with returns_verdict[OF p0 resolved_abs[OF sound_key(3)[OF s' that]]] show ?thesis by blast
  qed
  have mono: "analysisCache a' k = Some v" if "analysisCache a k = Some v" for k v
    using run_kept[OF IMU_run[OF assms(3)] that] that by (simp add: kept_def)
  from complete[OF v s' cf' assms(2)] obtain a'' where
    again: "IsModuleUpdated n0 env a' m = Some (Inl e, a'')" by blast
  from miss_calls[OF again key none] obtain rest where
    "calls a'' = calls a' @ CallStat (Clean m) # rest" ..
  with again key none ent mono show ?thesis by blast
qed

theorem error_leaves_no_entry_witness:
  "populated env_ex analyzer_ex analyzer_ex \<and> resolved env_ex ''/r/env/test''
   \<and> map_option fst (IsModuleUpdated 5 env_ex analyzer_ex ''/r/env/test'') =
       Some (Inl (Wrapf ''failed to analyze child module %s: %w'' [''/r/mod/locked'']
         (Wrapf ''failed to check direct changes in %s: %w'' [''/r/mod/locked'']
           (Wrapf ''failed to read directory %s: %w'' [''/r/mod/locked'']
             (OsError ''permission denied'')))))
   \<and> cacheKey env_ex (Clean ''/r/env/test'') = Inr ''/r/env/test''
   \<and> analysisCache (snd (the (IsModuleUpdated 5 env_ex analyzer_ex ''/r/env/test'')))
        ''/r/env/test'' = None"
proof -
  have rs: "resolved env_ex ''/r/env/test''" by (rule resolved_abs) (rule IsAbs_slash)
  from error_leaves_no_entry[OF ex_fresh rs returned[OF ex_test]] ex_test_key
  have "analysisCache (snd (the (IsModuleUpdated 5 env_ex analyzer_ex ''/r/env/test'')))
        ''/r/env/test'' = None" by auto
  with ex_fresh rs ex_test ex_test_key show ?thesis by blast
qed

text \<open>
  C9. When the reference graph is finite and has no cycle, the chains of references from
  any module have a bounded length, and a call of \<^verbatim>\<open>IsModuleUpdated\<close> returns within a
  depth of recursion equal to that bound, in whatever state the engine is. There is no
  guard against cycles beyond the cache of finished verdicts: on a set of modules in
  which every module has no direct change and declares another module of the set, and in
  which every child declared before that one is found unaffected, a call on any module of
  the set returns at no depth. The set is a set of resolved cleaned paths and the engine
  one populated by queries on resolved paths.
\<close>

theorem termination_and_cycles:
  "(finite (refs env) \<and> acyclic (refs env) \<longrightarrow> (\<exists>d. within d env m))
   \<and> (within d env m \<longrightarrow> (\<exists>x. IsModuleUpdated d env a m = Some x))
   \<and> (populated env a0 a \<and> (\<forall>p\<in>C. cycle_step env a C p) \<and> m \<in> C \<longrightarrow>
        (\<forall>n. IsModuleUpdated n env a m = None))"
  using acyclic_within[of env m] within_returns[of d env m a]
    cycle_never_returns[of env a0 a C m] by blast

theorem termination_and_cycles_witness:
  "finite (refs env_dag) \<and> acyclic (refs env_dag) \<and> (\<exists>d. within d env_dag ''/r/p'')
   \<and> within 2 env_ex ''/r/env/dev''
   \<and> (\<exists>x. IsModuleUpdated 2 env_ex analyzer_ex ''/r/env/dev'' = Some x)
   \<and> populated env_ex analyzer_ex analyzer_ex
   \<and> cycle_step env_ex analyzer_ex {''/r/cyc/a'', ''/r/cyc/b''} ''/r/cyc/a''
   \<and> cycle_step env_ex analyzer_ex {''/r/cyc/a'', ''/r/cyc/b''} ''/r/cyc/b''
   \<and> IsModuleUpdated 7 env_ex analyzer_ex ''/r/cyc/a'' = None"
proof -
  have 1: "\<exists>d. within d env_dag ''/r/p''"
    using termination_and_cycles[of env_dag "''/r/p''"] dag_finite dag_acyclic by blast
  have 2: "\<exists>x. IsModuleUpdated 2 env_ex analyzer_ex ''/r/env/dev'' = Some x"
    using termination_and_cycles[of env_ex "''/r/env/dev''" 2 analyzer_ex] ex_within_dev by blast
  have 3: "IsModuleUpdated 7 env_ex analyzer_ex ''/r/cyc/a'' = None"
    using termination_and_cycles[of env_ex "''/r/cyc/a''" _ analyzer_ex analyzer_ex
        "{''/r/cyc/a'', ''/r/cyc/b''}"] ex_fresh ex_cyc_a ex_cyc_b by blast
  from 1 2 3 dag_finite dag_acyclic ex_within_dev ex_fresh ex_cyc_a ex_cyc_b
  show ?thesis by blast
qed

text \<open>
  The condition on the children declared earlier cannot be dropped. In the example tree
  \<^verbatim>\<open>/r/mix/a\<close> and \<^verbatim>\<open>/r/mix/b\<close> declare each other and neither has a direct change, but
  \<^verbatim>\<open>/r/mix/a\<close> declares the changed module \<^verbatim>\<open>/r/mod/a\<close> first: the loop over the
  children stops there, and the calls on both modules of the cycle return \<open>true\<close>.
\<close>

theorem cycle_with_updated_sibling_returns:
  "FindChildModules env_ex ''/r/mix/a'' = Inr [''/r/mod/a'', ''/r/mix/b'']
   \<and> FindChildModules env_ex ''/r/mix/b'' = Inr [''/r/mix/a'']
   \<and> directChange env_ex (changedFiles analyzer_ex) ''/r/mix/a'' = Inr False
   \<and> directChange env_ex (changedFiles analyzer_ex) ''/r/mix/b'' = Inr False
   \<and> map_option fst (IsModuleUpdated 2 env_ex analyzer_ex ''/r/mix/a'') = Some (Inr True)
   \<and> map_option fst (IsModuleUpdated 3 env_ex analyzer_ex ''/r/mix/b'') = Some (Inr True)"
  by code_simp

section \<open>The batch of root modules\<close>

lemma batch_success:
  "AnalyzeRootModules_loop n env a base dirs acc = Some (Inr out) \<Longrightarrow>
   \<exists>vs. queries n env a dirs = Some vs \<and> map fst vs = dirs
        \<and> (\<forall>x\<in>set vs. \<exists>b. snd x = Inr b)
        \<and> map Inr out = map Inr acc
            @ map (relativeTo env base) (map fst (filter (\<lambda>x. snd x = Inr True) vs))"
proof (induction dirs arbitrary: a acc)
  case Nil
  then show ?case by simp
next
  case (Cons d ds)
  from Cons.prems obtain r a1 where run: "IsModuleUpdated n env a d = Some (r, a1)"
    by (cases "IsModuleUpdated n env a d") auto
  show ?case
  proof (cases r)
    case (Inl e)
    with Cons.prems run show ?thesis by simp
  next
    case (Inr b)
    show ?thesis
    proof (cases b)
      case False
      with Inr run Cons.prems have
        "AnalyzeRootModules_loop n env a1 base ds acc = Some (Inr out)" by simp
      from Cons.IH[OF this] obtain vs where vs: "queries n env a1 ds = Some vs"
        "map fst vs = ds" "\<forall>x\<in>set vs. \<exists>b. snd x = Inr b"
        "map Inr out = map Inr acc
            @ map (relativeTo env base) (map fst (filter (\<lambda>x. snd x = Inr True) vs))"
        by blast
      let ?vs = "(d, Inr False) # vs"
      have "queries n env a (d # ds) = Some ?vs" using run Inr False vs(1) by simp
      moreover have "map fst ?vs = d # ds" using vs(2) by simp
      moreover have "\<forall>x\<in>set ?vs. \<exists>b. snd x = Inr b" using vs(3) by auto
      moreover have "map Inr out = map Inr acc
            @ map (relativeTo env base) (map fst (filter (\<lambda>x. snd x = Inr True) ?vs))"
        using vs(4) by simp
      ultimately show ?thesis by (intro exI[of _ ?vs] conjI)
    next
      case True
      from True Inr run Cons.prems obtain ab where ab: "Abs env base = Inr ab"
        by (cases "Abs env base") auto
      from True Inr run Cons.prems ab obtain ad where ad: "Abs env d = Inr ad"
        by (cases "Abs env d") auto
      from True Inr run Cons.prems ab ad obtain rel where
        rel: "ConvertToRelativePath ab ad = Inr rel"
        by (cases "ConvertToRelativePath ab ad") auto
      have rt: "relativeTo env base d = Inr rel" using ab ad rel by (simp add: relativeTo_def)
      from True Inr run Cons.prems ab ad rel have
        "AnalyzeRootModules_loop n env a1 base ds (acc @ [rel]) = Some (Inr out)" by simp
      from Cons.IH[OF this] obtain vs where vs: "queries n env a1 ds = Some vs"
        "map fst vs = ds" "\<forall>x\<in>set vs. \<exists>b. snd x = Inr b"
        "map Inr out = map Inr (acc @ [rel])
            @ map (relativeTo env base) (map fst (filter (\<lambda>x. snd x = Inr True) vs))"
        by blast
      let ?vs = "(d, Inr True) # vs"
      have "queries n env a (d # ds) = Some ?vs" using run Inr True vs(1) by simp
      moreover have "map fst ?vs = d # ds" using vs(2) by simp
      moreover have "\<forall>x\<in>set ?vs. \<exists>b. snd x = Inr b" using vs(3) by auto
      moreover have "map Inr out = map Inr acc
            @ map (relativeTo env base) (map fst (filter (\<lambda>x. snd x = Inr True) ?vs))"
        using vs(4) rt by simp
      ultimately show ?thesis by (intro exI[of _ ?vs] conjI)
    qed
  qed
qed

lemma batch_failure:
  "queries n env a dirs = Some vs \<Longrightarrow> (d, Inl e) \<in> set vs \<Longrightarrow>
   \<exists>e'. AnalyzeRootModules_loop n env a base dirs acc = Some (Inl e')"
proof (induction dirs arbitrary: a acc vs)
  case Nil
  then show ?case by simp
next
  case (Cons d0 ds)
  from Cons.prems(1) obtain r a1 where run: "IsModuleUpdated n env a d0 = Some (r, a1)"
    by (cases "IsModuleUpdated n env a d0") auto
  show ?case
  proof (cases r)
    case (Inl e0)
    with run show ?thesis by simp
  next
    case (Inr b)
    with run Cons.prems(1) obtain vs' where vs': "queries n env a1 ds = Some vs'"
      "vs = (d0, Inr b) # vs'" by (cases "queries n env a1 ds") auto
    with Cons.prems(2) have mem: "(d, Inl e) \<in> set vs'" by simp
    note IH = Cons.IH[OF vs'(1) mem]
    show ?thesis
    proof (cases b)
      case False
      with IH[of acc] run Inr show ?thesis by simp
    next
      case True
      show ?thesis
      proof (cases "relativeTo env base d0")
        case (Inl e1)
        with run Inr True show ?thesis
          by (auto simp: relativeTo_def split: sum.splits)
      next
        case rel: (Inr rel)
        with IH[of "acc @ [rel]"] run Inr True show ?thesis
          by (auto simp: relativeTo_def split: sum.splits)
      qed
    qed
  qed
qed

text \<open>
  C8. \<^verbatim>\<open>AnalyzeRootModules\<close> builds one engine and calls \<^verbatim>\<open>IsModuleUpdated\<close> on the root
  directories in order. When it returns a list, every call returned a verdict, and the
  list is, in the order of the input, the path relative to the base path of each root
  directory whose verdict on that engine is \<open>true\<close>. When one of the calls returns an
  error, the result is an error: there is no list.
\<close>

theorem all_or_nothing:
  assumes "NewAnalyzer env changed = Inr a0"
  shows "(AnalyzeRootModules n env dirs changed base = Some (Inr out) \<longrightarrow>
            (\<exists>vs. queries n env a0 dirs = Some vs \<and> map fst vs = dirs
               \<and> (\<forall>x\<in>set vs. \<exists>b. snd x = Inr b)
               \<and> map Inr out =
                   map (relativeTo env base) (map fst (filter (\<lambda>x. snd x = Inr True) vs))))
       \<and> (queries n env a0 dirs = Some vs \<and> (d, Inl e) \<in> set vs \<longrightarrow>
            (\<exists>e'. AnalyzeRootModules n env dirs changed base = Some (Inl e')))"
proof (intro conjI impI)
  assume "AnalyzeRootModules n env dirs changed base = Some (Inr out)"
  with assms have "AnalyzeRootModules_loop n env a0 base dirs [] = Some (Inr out)"
    by (simp add: AnalyzeRootModules_def)
  from batch_success[OF this] show "\<exists>vs. queries n env a0 dirs = Some vs \<and> map fst vs = dirs
               \<and> (\<forall>x\<in>set vs. \<exists>b. snd x = Inr b)
               \<and> map Inr out =
                   map (relativeTo env base) (map fst (filter (\<lambda>x. snd x = Inr True) vs))"
    by simp
next
  assume "queries n env a0 dirs = Some vs \<and> (d, Inl e) \<in> set vs"
  then have "\<exists>e'. AnalyzeRootModules_loop n env a0 base dirs [] = Some (Inl e')"
    using batch_failure by blast
  with assms show "\<exists>e'. AnalyzeRootModules n env dirs changed base = Some (Inl e')"
    by (simp add: AnalyzeRootModules_def)
qed

theorem all_or_nothing_witness:
  "NewAnalyzer env_ex [''/r/mod/a/main.tf''] = Inr analyzer_ex
   \<and> AnalyzeRootModules 5 env_ex [''/r/env/dev'', ''/r/mod/b'', ''/r/env/prod'']
        [''/r/mod/a/main.tf''] ''/r'' = Some (Inr [''env/dev'', ''env/prod''])
   \<and> (\<exists>vs. queries 5 env_ex analyzer_ex [''/r/env/dev'', ''/r/mod/b'', ''/r/env/prod''] = Some vs
         \<and> map fst vs = [''/r/env/dev'', ''/r/mod/b'', ''/r/env/prod'']
         \<and> (\<forall>x\<in>set vs. \<exists>b. snd x = Inr b)
         \<and> map Inr [''env/dev'', ''env/prod''] =
             map (relativeTo env_ex ''/r'') (map fst (filter (\<lambda>x. snd x = Inr True) vs)))
   \<and> (\<exists>e'. AnalyzeRootModules 5 env_ex [''/r/env/dev'', ''/r/env/test'', ''/r/env/prod'']
               [''/r/mod/a/main.tf''] ''/r'' = Some (Inl e'))"
proof -
  let ?E = "Wrapf ''failed to analyze child module %s: %w'' [''/r/mod/locked'']
              (Wrapf ''failed to check direct changes in %s: %w'' [''/r/mod/locked'']
                (Wrapf ''failed to read directory %s: %w'' [''/r/mod/locked'']
                  (OsError ''permission denied'')))"
  let ?VS = "[(''/r/env/dev'', Inr True), (''/r/env/test'', Inl ?E)]"
  note t1 = all_or_nothing[OF ex_NewAnalyzer, where n = 5 and base = "''/r''"
      and dirs = "[''/r/env/dev'', ''/r/mod/b'', ''/r/env/prod'']"
      and out = "[''env/dev'', ''env/prod'']"]
  note t2 = all_or_nothing[OF ex_NewAnalyzer, where n = 5 and base = "''/r''"
      and dirs = "[''/r/env/dev'', ''/r/env/test'', ''/r/env/prod'']"
      and d = "''/r/env/test''" and e = ?E and vs = ?VS]
  note 1 = t1[THEN conjunct1, THEN mp, OF ex_batch]
  have "queries 5 env_ex analyzer_ex [''/r/env/dev'', ''/r/env/test'', ''/r/env/prod''] = Some ?VS
      \<and> (''/r/env/test'', Inl ?E) \<in> set ?VS"
    using ex_queries_bad by simp
  note 2 = t2[THEN conjunct2, THEN mp, OF this]
  from ex_NewAnalyzer ex_batch 1 2 show ?thesis by (intro conjI)
qed

end
